theory Spec2Isabelle
  imports Main
begin

section \<open>A store for the objects of \<^verbatim>\<open>src/data/Graph.ts\<close>\<close>

text \<open>
  The source builds a mutable object graph: a \<^verbatim>\<open>Graph\<close> holds arrays of \<^verbatim>\<open>GraphNode\<close> and
  \<^verbatim>\<open>GraphEdge\<close> objects, every node holds arrays of edges, every edge points back at two
  nodes, and all of them point at their host graph. Object identity matters (\<^verbatim>\<open>n1 !== n2\<close>,
  freshly constructed clones), so objects live in a store and are named by references.
  A reference is the address at which the object was allocated; addresses below the
  allocation limit of a store are the objects that exist.
\<close>

type_synonym ref = nat

datatype error = TypeError

text \<open>Values of type \<^verbatim>\<open>any\<close> kept by a record table.\<close>

datatype jsval = Undefined | Num int | Str string | Obj "(string \<times> jsval) list"

text \<open>
  Modelled from the spec: the record table \<^verbatim>\<open>List\<close> (\<^verbatim>\<open>src/data/List.ts\<close> is not among the
  sources). The spec describes it as the ordered sequence of storage indices that currently
  survive filtering, with \<^verbatim>\<open>position_to_storage_index\<close> (\<^verbatim>\<open>getRawIndex\<close>),
  \<^verbatim>\<open>storage_count\<close> (\<^verbatim>\<open>count\<close>), \<^verbatim>\<open>filter_self\<close> (\<^verbatim>\<open>filterSelf\<close>) and field, visual, layout and
  graphic-handle accessors keyed by position.
\<close>

record List =
  indices :: "int list"
  fieldValues :: "string \<Rightarrow> int \<Rightarrow> jsval"
  itemVisuals :: "int \<Rightarrow> string \<Rightarrow> jsval"
  itemLayouts :: "int \<Rightarrow> jsval"
  graphicEls :: "int \<Rightarrow> jsval"

record GraphNode =
  n_id :: string
  n_inEdges :: "ref list"
  n_outEdges :: "ref list"
  n_edges :: "ref list"
  n_hostGraph :: "ref option"
  n_dataIndex :: int
  n_visited :: bool

record GraphEdge =
  e_node1 :: ref
  e_node2 :: ref
  e_dataIndex :: int
  e_hostGraph :: "ref option"

record Graph =
  g_nodes :: "ref list"
  g_edges :: "ref list"
  g_data :: "List option"
  g_edgeData :: "List option"
  g_directed :: bool
  g_nodesMap :: "string \<rightharpoonup> ref"
  g_edgesMap :: "string \<rightharpoonup> ref"

record heap =
  graphObjs :: "ref \<Rightarrow> Graph"
  graphLim :: nat
  nodeObjs :: "ref \<Rightarrow> GraphNode"
  nodeLim :: nat
  edgeObjs :: "ref \<Rightarrow> GraphEdge"
  edgeLim :: nat

definition updGraph :: "ref \<Rightarrow> (Graph \<Rightarrow> Graph) \<Rightarrow> heap \<Rightarrow> heap" where
  "updGraph g f h = h\<lparr>graphObjs := (graphObjs h)(g := f (graphObjs h g))\<rparr>"

definition updNode :: "ref \<Rightarrow> (GraphNode \<Rightarrow> GraphNode) \<Rightarrow> heap \<Rightarrow> heap" where
  "updNode r f h = h\<lparr>nodeObjs := (nodeObjs h)(r := f (nodeObjs h r))\<rparr>"

definition updEdge :: "ref \<Rightarrow> (GraphEdge \<Rightarrow> GraphEdge) \<Rightarrow> heap \<Rightarrow> heap" where
  "updEdge r f h = h\<lparr>edgeObjs := (edgeObjs h)(r := f (edgeObjs h r))\<rparr>"

definition allocGraph :: "Graph \<Rightarrow> heap \<Rightarrow> ref \<times> heap" where
  "allocGraph G h =
     (graphLim h, h\<lparr>graphObjs := (graphObjs h)(graphLim h := G), graphLim := Suc (graphLim h)\<rparr>)"

definition allocNode :: "GraphNode \<Rightarrow> heap \<Rightarrow> ref \<times> heap" where
  "allocNode N h =
     (nodeLim h, h\<lparr>nodeObjs := (nodeObjs h)(nodeLim h := N), nodeLim := Suc (nodeLim h)\<rparr>)"

definition allocEdge :: "GraphEdge \<Rightarrow> heap \<Rightarrow> ref \<times> heap" where
  "allocEdge E h =
     (edgeLim h, h\<lparr>edgeObjs := (edgeObjs h)(edgeLim h := E), edgeLim := Suc (edgeLim h)\<rparr>)"

text \<open>The store before anything is constructed.\<close>

definition emptyHeap :: heap where
  "emptyHeap =
     \<lparr>graphObjs = (\<lambda>_. \<lparr>g_nodes = [], g_edges = [], g_data = None, g_edgeData = None,
                        g_directed = False, g_nodesMap = Map.empty, g_edgesMap = Map.empty\<rparr>),
      graphLim = 0,
      nodeObjs = (\<lambda>_. \<lparr>n_id = [], n_inEdges = [], n_outEdges = [], n_edges = [],
                       n_hostGraph = None, n_dataIndex = -1, n_visited = False\<rparr>),
      nodeLim = 0,
      edgeObjs = (\<lambda>_. \<lparr>e_node1 = 0, e_node2 = 0, e_dataIndex = -1, e_hostGraph = None\<rparr>),
      edgeLim = 0\<rparr>"

section \<open>Strings and keys\<close>

text \<open>
  \<^verbatim>\<open>'' + dataIndex\<close> for a number that is an integer: the conversion of a number to a string
  in JavaScript. A number is a double, so an integer stands for the double nearest to it
  (\<open>nearestDouble\<close>: 53 significant bits, a tie goes to the even significand, and from
  \<open>2^1024 - 2^970\<close> on the number is \<^verbatim>\<open>Infinity\<close>). The digits printed are the shortest
  decimal that reads back as the same double, the closest one when several do and the one
  with the even last digit on a tie (\<open>shortest\<close> returns that decimal and the number of its
  trailing zeros). Up to 21 digits it is printed in full, beyond that in exponent notation.
  Up to \<open>2^53\<close> this is the plain decimal numeral; \<^verbatim>\<open>'' + 2**60\<close> is \<^verbatim>\<open>1152921504606847000\<close>
  and \<^verbatim>\<open>'' + 1e21\<close> is \<^verbatim>\<open>1e+21\<close>.
\<close>

fun natToString :: "nat \<Rightarrow> string" where
  "natToString n =
     (if n < 10 then [''0123456789'' ! n]
      else natToString (n div 10) @ [''0123456789'' ! (n mod 10)])"

declare natToString.simps [simp del]

fun bitLength :: "nat \<Rightarrow> nat" where
  "bitLength n = (if n = 0 then 0 else Suc (bitLength (n div 2)))"

declare bitLength.simps [simp del]

definition nearestDouble :: "nat \<Rightarrow> nat option" where
  "nearestDouble a =
     (let b = bitLength a in
      if b \<le> 53 then Some a
      else
        let e = b - 53; q = a div 2 ^ e; r = a mod 2 ^ e; half = 2 ^ (e - 1);
            m = (if half < r \<or> (r = half \<and> odd q) then q + 1 else q);
            v = m * 2 ^ e
        in if 2 ^ 1024 \<le> v then None else Some v)"

definition roundsTo :: "nat \<Rightarrow> nat \<Rightarrow> bool" where
  "roundsTo c v \<longleftrightarrow> 0 < c \<and> nearestDouble c = Some v"

fun shortest :: "nat \<Rightarrow> nat \<Rightarrow> nat \<times> nat" where
  "shortest v 0 = (v, 0)"
| "shortest v (Suc z) =
     (let p = 10 ^ Suc z; c1 = (v div p) * p; c2 = c1 + p in
      if roundsTo c1 v \<and> roundsTo c2 v
      then (if v - c1 < c2 - v \<or> (v - c1 = c2 - v \<and> even (c1 div p)) then (c1, Suc z) else (c2, Suc z))
      else if roundsTo c1 v then (c1, Suc z)
      else if roundsTo c2 v then (c2, Suc z)
      else shortest v z)"

definition jsDigits :: "nat \<Rightarrow> string" where
  "jsDigits v =
     (let (c, z) = shortest v (length (natToString v));
          n = length (natToString c)
      in if n \<le> 21 then natToString c
         else
           let ds = natToString (c div 10 ^ z)
           in (if length ds = 1 then ds else hd ds # CHR ''.'' # tl ds) @ ''e+'' @ natToString (n - 1))"

definition numToString :: "int \<Rightarrow> string" where
  "numToString i =
     (if i = 0 then ''0''
      else (if i < 0 then ''-'' else []) @
           (case nearestDouble (nat \<bar>i\<bar>) of None \<Rightarrow> ''Infinity'' | Some v \<Rightarrow> jsDigits v))"

definition generateNodeKey :: "string \<Rightarrow> string" where
  "generateNodeKey ident = ''_EC_'' @ ident"

section \<open>Constructors\<close>

text \<open>\<^verbatim>\<open>new Graph(directed?)\<close>: \<^verbatim>\<open>this._directed = directed || false\<close>.\<close>

definition Graph_new :: "heap \<Rightarrow> bool option \<Rightarrow> ref \<times> heap" where
  "Graph_new h directed =
     allocGraph \<lparr>g_nodes = [], g_edges = [], g_data = None, g_edgeData = None,
                 g_directed = (case directed of None \<Rightarrow> False | Some d \<Rightarrow> d),
                 g_nodesMap = Map.empty, g_edgesMap = Map.empty\<rparr> h"

text \<open>
  \<^verbatim>\<open>new GraphNode(id?, dataIndex?)\<close>. The field \<^verbatim>\<open>__visited\<close> is declared without a value;
  only its truthiness is ever read, so the absent value is \<open>False\<close>.
\<close>

definition GraphNode_new :: "string option \<Rightarrow> int option \<Rightarrow> GraphNode" where
  "GraphNode_new ident dataIndex =
     \<lparr>n_id = (case ident of None \<Rightarrow> [] | Some s \<Rightarrow> s),
      n_inEdges = [], n_outEdges = [], n_edges = [],
      n_hostGraph = None,
      n_dataIndex = (case dataIndex of None \<Rightarrow> -1 | Some i \<Rightarrow> i),
      n_visited = False\<rparr>"

definition GraphEdge_new :: "ref \<Rightarrow> ref \<Rightarrow> int option \<Rightarrow> GraphEdge" where
  "GraphEdge_new n1 n2 dataIndex =
     \<lparr>e_node1 = n1, e_node2 = n2,
      e_dataIndex = (case dataIndex of None \<Rightarrow> -1 | Some i \<Rightarrow> i),
      e_hostGraph = None\<rparr>"

section \<open>Nodes: \<^verbatim>\<open>addNode\<close>, \<^verbatim>\<open>getNodeById\<close>\<close>

text \<open>\<^verbatim>\<open>id = id == null ? ('' + dataIndex) : ('' + id)\<close>; an absent \<^verbatim>\<open>dataIndex\<close> prints as
  \<^verbatim>\<open>undefined\<close>.\<close>

definition normalizeId :: "string option \<Rightarrow> int option \<Rightarrow> string" where
  "normalizeId ident dataIndex =
     (case ident of
        None \<Rightarrow> (case dataIndex of None \<Rightarrow> ''undefined'' | Some i \<Rightarrow> numToString i)
      | Some s \<Rightarrow> s)"

definition addNode :: "heap \<Rightarrow> ref \<Rightarrow> string option \<Rightarrow> int option \<Rightarrow> ref option \<times> heap" where
  "addNode h g ident dataIndex =
     (let ident' = normalizeId ident dataIndex;
          nodesMap = g_nodesMap (graphObjs h g)
      in if nodesMap (generateNodeKey ident') \<noteq> None then (None, h)
         else
           let (node, h1) = allocNode (GraphNode_new (Some ident') dataIndex) h;
               h2 = updNode node (\<lambda>N. N\<lparr>n_hostGraph := Some g\<rparr>) h1;
               h3 = updGraph g (\<lambda>G. G\<lparr>g_nodes := g_nodes G @ [node]\<rparr>) h2;
               h4 = updGraph g (\<lambda>G. G\<lparr>g_nodesMap := (g_nodesMap G)(generateNodeKey ident' \<mapsto> node)\<rparr>) h3
           in (Some node, h4))"

definition getNodeById :: "heap \<Rightarrow> ref \<Rightarrow> string \<Rightarrow> ref option" where
  "getNodeById h g ident = g_nodesMap (graphObjs h g) (generateNodeKey ident)"

text \<open>A sequence of \<^verbatim>\<open>addNode\<close> calls on one graph, with the value each call returns.\<close>

fun addNodes :: "heap \<Rightarrow> ref \<Rightarrow> (string option \<times> int option) list \<Rightarrow> ref option list \<times> heap" where
  "addNodes h g [] = ([], h)"
| "addNodes h g (a # as) =
     (let (r, h1) = addNode h g (fst a) (snd a);
          (rs, h2) = addNodes h1 g as
      in (r # rs, h2))"

section \<open>Edges: \<^verbatim>\<open>addEdge\<close>, \<^verbatim>\<open>getEdge\<close>\<close>

text \<open>An endpoint argument of \<^verbatim>\<open>addEdge\<close>: \<^verbatim>\<open>GraphNode | number | string\<close>.\<close>

datatype nodeArg = NodeRef ref | NodeIdx int | NodeId string

text \<open>\<^verbatim>\<open>xs[i]\<close> on a JavaScript array: \<^verbatim>\<open>undefined\<close> outside the array.\<close>

definition jsIndex :: "'a list \<Rightarrow> int \<Rightarrow> 'a option" where
  "jsIndex xs i = (if 0 \<le> i \<and> i < int (length xs) then Some (xs ! nat i) else None)"

text \<open>
  The resolution of one endpoint in \<^verbatim>\<open>addEdge\<close>: a number indexes \<^verbatim>\<open>this.nodes\<close>; whatever is
  not a \<^verbatim>\<open>GraphNode\<close> after that is looked up as an id, so a number outside the array (which
  indexed to \<^verbatim>\<open>undefined\<close>) is looked up under the key of the string \<^verbatim>\<open>undefined\<close>.
\<close>

definition resolveNode :: "Graph \<Rightarrow> nodeArg \<Rightarrow> ref option" where
  "resolveNode G a =
     (case a of
        NodeRef r \<Rightarrow> Some r
      | NodeIdx i \<Rightarrow>
          (case jsIndex (g_nodes G) i of
             Some r \<Rightarrow> Some r
           | None \<Rightarrow> g_nodesMap G (generateNodeKey ''undefined''))
      | NodeId s \<Rightarrow> g_nodesMap G (generateNodeKey s))"

text \<open>\<^verbatim>\<open>n1.id + '-' + n2.id\<close>\<close>

definition edgeKey :: "string \<Rightarrow> string \<Rightarrow> string" where
  "edgeKey id1 id2 = id1 @ ''-'' @ id2"

definition addEdge :: "heap \<Rightarrow> ref \<Rightarrow> nodeArg \<Rightarrow> nodeArg \<Rightarrow> int option \<Rightarrow> ref option \<times> heap" where
  "addEdge h g a1 a2 dataIndex =
     (let G = graphObjs h g in
      case resolveNode G a1 of None \<Rightarrow> (None, h) | Some n1 \<Rightarrow>
     (case resolveNode G a2 of None \<Rightarrow> (None, h) | Some n2 \<Rightarrow>
        let key = edgeKey (n_id (nodeObjs h n1)) (n_id (nodeObjs h n2))
        in if g_edgesMap G key \<noteq> None then (None, h)
           else
             let (edge, h1) = allocEdge (GraphEdge_new n1 n2 dataIndex) h;
                 h2 = updEdge edge (\<lambda>E. E\<lparr>e_hostGraph := Some g\<rparr>) h1;
                 h3 = (if g_directed G
                       then updNode n2 (\<lambda>N. N\<lparr>n_inEdges := n_inEdges N @ [edge]\<rparr>)
                              (updNode n1 (\<lambda>N. N\<lparr>n_outEdges := n_outEdges N @ [edge]\<rparr>) h2)
                       else h2);
                 h4 = updNode n1 (\<lambda>N. N\<lparr>n_edges := n_edges N @ [edge]\<rparr>) h3;
                 h5 = (if n1 \<noteq> n2
                       then updNode n2 (\<lambda>N. N\<lparr>n_edges := n_edges N @ [edge]\<rparr>) h4
                       else h4);
                 h6 = updGraph g (\<lambda>G. G\<lparr>g_edges := g_edges G @ [edge]\<rparr>) h5;
                 h7 = updGraph g (\<lambda>G. G\<lparr>g_edgesMap := (g_edgesMap G)(key \<mapsto> edge)\<rparr>) h6
             in (Some edge, h7)))"

text \<open>An argument of \<^verbatim>\<open>getEdge\<close> and the start of a traversal: \<^verbatim>\<open>string | GraphNode\<close>.\<close>

datatype nodeOrId = ANode ref | AnId string

definition endId :: "heap \<Rightarrow> nodeOrId \<Rightarrow> string" where
  "endId h a = (case a of ANode r \<Rightarrow> n_id (nodeObjs h r) | AnId s \<Rightarrow> s)"

definition getEdge :: "heap \<Rightarrow> ref \<Rightarrow> nodeOrId \<Rightarrow> nodeOrId \<Rightarrow> ref option" where
  "getEdge h g a1 a2 =
     (let n1 = endId h a1; n2 = endId h a2; edgesMap = g_edgesMap (graphObjs h g)
      in if g_directed (graphObjs h g) then edgesMap (edgeKey n1 n2)
         else (case edgesMap (edgeKey n1 n2) of
                 Some e \<Rightarrow> Some e
               | None \<Rightarrow> edgesMap (edgeKey n2 n1)))"

section \<open>Breadth-first traversal\<close>

text \<open>\<^verbatim>\<open>direction: 'none' | 'in' | 'out'\<close>\<close>

datatype direction = DirNone | DirIn | DirOut

definition edgeType :: "direction \<Rightarrow> GraphNode \<Rightarrow> ref list" where
  "edgeType d = (if d = DirOut then n_outEdges else if d = DirIn then n_inEdges else n_edges)"

text \<open>
  Reading an object through a reference. Every reference a JavaScript program holds names an
  object that exists; a reference outside the store reads as \<^verbatim>\<open>undefined\<close>, and a property
  access on it raises \<^verbatim>\<open>TypeError\<close>.
\<close>

definition getNodeObj :: "heap \<Rightarrow> ref \<Rightarrow> GraphNode option" where
  "getNodeObj h r = (if r < nodeLim h then Some (nodeObjs h r) else None)"

definition getEdgeObj :: "heap \<Rightarrow> ref \<Rightarrow> GraphEdge option" where
  "getEdgeObj h r = (if r < edgeLim h then Some (edgeObjs h r) else None)"

text \<open>
  The callback \<^verbatim>\<open>cb(node, fromNode)\<close> of a traversal. It may keep state of its own (of type
  \<open>'s\<close>), returns whether to stop, and does not change the graph.
\<close>

type_synonym 's callback = "'s \<Rightarrow> ref \<Rightarrow> ref option \<Rightarrow> bool \<times> 's"

text \<open>The \<^verbatim>\<open>for\<close> loop over the edges of \<^verbatim>\<open>currentNode\<close>; the flag returned is \<^verbatim>\<open>return\<close>.\<close>

fun visitEdges ::
  "'s callback \<Rightarrow> ref \<Rightarrow> ref list \<Rightarrow> heap \<Rightarrow> ref list \<Rightarrow> 's \<Rightarrow> error + (bool \<times> heap \<times> ref list \<times> 's)" where
  "visitEdges cb currentNode [] h queue s = Inr (False, h, queue, s)"
| "visitEdges cb currentNode (e # es) h queue s =
     (case getEdgeObj h e of
        None \<Rightarrow> Inl TypeError
      | Some E \<Rightarrow>
          (let otherNode = (if e_node1 E = currentNode then e_node2 E else e_node1 E)
           in case getNodeObj h otherNode of
                None \<Rightarrow> Inl TypeError
              | Some N \<Rightarrow>
                  if \<not> n_visited N
                  then (let (stop, s') = cb s otherNode (Some currentNode)
                        in if stop then Inr (True, h, queue, s')
                           else visitEdges cb currentNode es
                                  (updNode otherNode (\<lambda>N. N\<lparr>n_visited := True\<rparr>) h)
                                  (queue @ [otherNode]) s')
                  else visitEdges cb currentNode es h queue s))"

text \<open>The queue loop ends: every node enters the queue unvisited and is marked at once.\<close>

definition unvisited :: "heap \<Rightarrow> ref set" where
  "unvisited h = {r. r < nodeLim h \<and> \<not> n_visited (nodeObjs h r)}"

lemma finite_unvisited: "finite (unvisited h)"
  by (simp add: unvisited_def)

lemma unvisited_mark:
  assumes "r < nodeLim h" and "\<not> n_visited (nodeObjs h r)"
  shows "card (unvisited (updNode r (\<lambda>N. N\<lparr>n_visited := True\<rparr>) h)) < card (unvisited h)"
proof -
  have eq: "unvisited (updNode r (\<lambda>N. N\<lparr>n_visited := True\<rparr>) h) = unvisited h - {r}"
    by (auto simp: unvisited_def updNode_def)
  have "r \<in> unvisited h" using assms by (simp add: unvisited_def)
  then have "card (unvisited h - {r}) < card (unvisited h)"
    by (rule card_Diff1_less [OF finite_unvisited])
  then show ?thesis by (simp only: eq)
qed

lemma visitEdges_measure:
  "visitEdges cb c es h q s = Inr (stop, h', q', s') \<Longrightarrow>
     2 * card (unvisited h') + length q' \<le> 2 * card (unvisited h) + length q"
proof (induction es arbitrary: h q s)
  case Nil
  then show ?case by simp
next
  case (Cons e es)
  show ?case
  proof (cases "getEdgeObj h e")
    case None
    with Cons.prems show ?thesis by simp
  next
    case (Some E)
    define other where "other = (if e_node1 E = c then e_node2 E else e_node1 E)"
    show ?thesis
    proof (cases "getNodeObj h other")
      case None
      with Cons.prems Some show ?thesis by (simp add: other_def Let_def)
    next
      case N: (Some N)
      show ?thesis
      proof (cases "n_visited N")
        case True
        with Cons.prems Some N have "visitEdges cb c es h q s = Inr (stop, h', q', s')"
          by (simp add: other_def Let_def)
        then show ?thesis by (rule Cons.IH)
      next
        case False
        obtain st s1 where cb: "cb s other (Some c) = (st, s1)" by (cases "cb s other (Some c)")
        show ?thesis
        proof (cases st)
          case True
          with Cons.prems Some N False cb show ?thesis
            by (simp add: other_def Let_def)
        next
          case nst: False
          let ?h1 = "updNode other (\<lambda>N. N\<lparr>n_visited := True\<rparr>) h"
          from Cons.prems Some N False cb nst
          have "visitEdges cb c es ?h1 (q @ [other]) s1 = Inr (stop, h', q', s')"
            by (simp add: other_def Let_def)
          from Cons.IH [OF this]
          have le: "2 * card (unvisited h') + length q' \<le> 2 * card (unvisited ?h1) + length (q @ [other])" .
          from N False have "other < nodeLim h" "\<not> n_visited (nodeObjs h other)"
            by (auto simp: getNodeObj_def split: if_splits)
          from unvisited_mark [OF this] le show ?thesis by simp
        qed
      qed
    qed
  qed
qed

function bfsLoop :: "'s callback \<Rightarrow> direction \<Rightarrow> heap \<Rightarrow> ref list \<Rightarrow> 's \<Rightarrow> error + (heap \<times> 's)" where
  "bfsLoop cb d h [] s = Inr (h, s)"
| "bfsLoop cb d h (currentNode # queue) s =
     (case getNodeObj h currentNode of
        None \<Rightarrow> Inl TypeError
      | Some N \<Rightarrow>
          (case visitEdges cb currentNode (edgeType d N) h queue s of
             Inl err \<Rightarrow> Inl err
           | Inr (stop, h', queue', s') \<Rightarrow>
               if stop then Inr (h', s') else bfsLoop cb d h' queue' s'))"
  by pat_completeness auto
termination
proof (relation "measure (\<lambda>(cb, d, h, q, s). 2 * card (unvisited h) + length q)", goal_cases)
  case 1
  then show ?case by simp
next
  case (2 cb d h currentNode queue s N r stop r' h' r'' queue' s')
  then have "visitEdges cb currentNode (edgeType d N) h queue s = Inr (stop, h', queue', s')"
    by simp
  from visitEdges_measure [OF this] show ?case by simp
qed

text \<open>The start of a traversal: a \<^verbatim>\<open>GraphNode\<close> is taken as it is, an id is looked up.\<close>

definition resolveStart :: "Graph \<Rightarrow> nodeOrId \<Rightarrow> ref option" where
  "resolveStart G startNode =
     (case startNode of
        ANode r \<Rightarrow> Some r
      | AnId i \<Rightarrow> g_nodesMap G (generateNodeKey i))"

definition breadthFirstTraverse ::
  "'s callback \<Rightarrow> 's \<Rightarrow> heap \<Rightarrow> ref \<Rightarrow> nodeOrId \<Rightarrow> direction \<Rightarrow> error + (heap \<times> 's)" where
  "breadthFirstTraverse cb s h g startNode direction =
     (case resolveStart (graphObjs h g) startNode of
        None \<Rightarrow> Inr (h, s)
      | Some start \<Rightarrow>
          (let h1 = fold (\<lambda>r. updNode r (\<lambda>N. N\<lparr>n_visited := False\<rparr>)) (g_nodes (graphObjs h g)) h;
               (stop, s1) = cb s start None
           in if stop then Inr (h1, s1) else bfsLoop cb direction h1 [start] s1))"

text \<open>
  A callback observed: \<open>logged cb\<close> behaves as \<open>cb\<close> and records every invocation, in order,
  as the node visited, the node it was reached from and the value returned.
\<close>

definition logged :: "'s callback \<Rightarrow> ('s \<times> (ref \<times> ref option \<times> bool) list) callback" where
  "logged cb = (\<lambda>(s, calls) n from.
     (let (stop, s') = cb s n from in (stop, (s', calls @ [(n, from, stop)]))))"

section \<open>The record tables and \<^verbatim>\<open>update\<close>\<close>

text \<open>Modelled from the spec: \<^verbatim>\<open>List.count\<close>, the number of rows that survive filtering.\<close>

definition List_count :: "List \<Rightarrow> nat" where
  "List_count L = length (indices L)"

text \<open>
  Modelled from the spec: \<^verbatim>\<open>List.getRawIndex\<close>, the storage index of the row at a position
  (\<open>-1\<close> at a position that is not live).
\<close>

definition List_getRawIndex :: "List \<Rightarrow> int \<Rightarrow> int" where
  "List_getRawIndex L i = (case jsIndex (indices L) i of None \<Rightarrow> -1 | Some raw \<Rightarrow> raw)"

text \<open>
  Modelled from the spec: \<^verbatim>\<open>List.filterSelf\<close> keeps, in order, the rows at whose position
  the predicate holds. An exception in the predicate leaves the call.
\<close>

fun filterRows :: "(int \<Rightarrow> error + bool) \<Rightarrow> List \<Rightarrow> nat list \<Rightarrow> error + int list" where
  "filterRows cb L [] = Inr []"
| "filterRows cb L (i # ps) =
     (case cb (int i) of
        Inl err \<Rightarrow> Inl err
      | Inr keep \<Rightarrow>
          (case filterRows cb L ps of
             Inl err \<Rightarrow> Inl err
           | Inr raws \<Rightarrow> Inr (if keep then List_getRawIndex L (int i) # raws else raws)))"

definition List_filterSelf :: "(int \<Rightarrow> error + bool) \<Rightarrow> List \<Rightarrow> error + List" where
  "List_filterSelf cb L =
     (case filterRows cb L [0..<List_count L] of
        Inl err \<Rightarrow> Inl err
      | Inr raws \<Rightarrow> Inr (L\<lparr>indices := raws\<rparr>))"

text \<open>\<^verbatim>\<open>for (i < data.count()) nodes[data.getRawIndex(i)].dataIndex = i\<close>\<close>

fun setNodeIndices :: "ref list \<Rightarrow> List \<Rightarrow> nat list \<Rightarrow> heap \<Rightarrow> error + heap" where
  "setNodeIndices nodes data [] h = Inr h"
| "setNodeIndices nodes data (i # ps) h =
     (case jsIndex nodes (List_getRawIndex data (int i)) of
        None \<Rightarrow> Inl TypeError
      | Some n \<Rightarrow> setNodeIndices nodes data ps (updNode n (\<lambda>N. N\<lparr>n_dataIndex := int i\<rparr>) h))"

text \<open>\<^verbatim>\<open>for (i < edgeData.count()) edges[edgeData.getRawIndex(i)].dataIndex = i\<close>\<close>

fun setEdgeIndices :: "ref list \<Rightarrow> List \<Rightarrow> nat list \<Rightarrow> heap \<Rightarrow> error + heap" where
  "setEdgeIndices edges edgeData [] h = Inr h"
| "setEdgeIndices edges edgeData (i # ps) h =
     (case jsIndex edges (List_getRawIndex edgeData (int i)) of
        None \<Rightarrow> Inl TypeError
      | Some e \<Rightarrow> setEdgeIndices edges edgeData ps (updEdge e (\<lambda>E. E\<lparr>e_dataIndex := int i\<rparr>) h))"

text \<open>The predicate \<^verbatim>\<open>update\<close> hands to \<^verbatim>\<open>edgeData.filterSelf\<close>.\<close>

definition bothEndsLive :: "heap \<Rightarrow> ref list \<Rightarrow> List \<Rightarrow> int \<Rightarrow> error + bool" where
  "bothEndsLive h edges edgeData idx =
     (case jsIndex edges (List_getRawIndex edgeData idx) of
        None \<Rightarrow> Inl TypeError
      | Some edge \<Rightarrow>
          Inr (0 \<le> n_dataIndex (nodeObjs h (e_node1 (edgeObjs h edge)))
               \<and> 0 \<le> n_dataIndex (nodeObjs h (e_node2 (edgeObjs h edge)))))"

text \<open>
  \<^verbatim>\<open>update()\<close>. The tables are the values of \<^verbatim>\<open>this.data\<close> and \<^verbatim>\<open>this.edgeData\<close>; a table that
  was never bound is \<^verbatim>\<open>undefined\<close> and the first call on it raises \<^verbatim>\<open>TypeError\<close>, as does an
  assignment through a storage index outside \<^verbatim>\<open>nodes\<close> or \<^verbatim>\<open>edges\<close>.
\<close>

definition update :: "heap \<Rightarrow> ref \<Rightarrow> error + heap" where
  "update h g =
     (let data = g_data (graphObjs h g);
          edgeData = g_edgeData (graphObjs h g);
          nodes = g_nodes (graphObjs h g);
          edges = g_edges (graphObjs h g);
          h1 = fold (\<lambda>n. updNode n (\<lambda>N. N\<lparr>n_dataIndex := -1\<rparr>)) nodes h
      in case data of
           None \<Rightarrow> Inl TypeError
         | Some data \<Rightarrow>
             (case setNodeIndices nodes data [0..<List_count data] h1 of
                Inl err \<Rightarrow> Inl err
              | Inr h2 \<Rightarrow>
                  (case edgeData of
                     None \<Rightarrow> Inl TypeError
                   | Some edgeData \<Rightarrow>
                       (case List_filterSelf (bothEndsLive h2 edges edgeData) edgeData of
                          Inl err \<Rightarrow> Inl err
                        | Inr edgeData' \<Rightarrow>
                            (let h3 = updGraph g (\<lambda>G. G\<lparr>g_edgeData := Some edgeData'\<rparr>) h2;
                                 h4 = fold (\<lambda>e. updEdge e (\<lambda>E. E\<lparr>e_dataIndex := -1\<rparr>)) edges h3
                             in setEdgeIndices edges edgeData' [0..<List_count edgeData'] h4)))))"

section \<open>\<^verbatim>\<open>clone\<close>\<close>

fun cloneNodes :: "heap \<Rightarrow> ref \<Rightarrow> ref list \<Rightarrow> heap" where
  "cloneNodes h graph [] = h"
| "cloneNodes h graph (n # ns) =
     cloneNodes
       (snd (addNode h graph (Some (n_id (nodeObjs h n))) (Some (n_dataIndex (nodeObjs h n)))))
       graph ns"

fun cloneEdges :: "heap \<Rightarrow> ref \<Rightarrow> ref list \<Rightarrow> heap" where
  "cloneEdges h graph [] = h"
| "cloneEdges h graph (e # es) =
     cloneEdges
       (snd (addEdge h graph
               (NodeId (n_id (nodeObjs h (e_node1 (edgeObjs h e)))))
               (NodeId (n_id (nodeObjs h (e_node2 (edgeObjs h e)))))
               (Some (e_dataIndex (edgeObjs h e)))))
       graph es"

definition clone :: "heap \<Rightarrow> ref \<Rightarrow> ref \<times> heap" where
  "clone h g =
     (let (graph, h1) = Graph_new h (Some (g_directed (graphObjs h g)));
          nodes = g_nodes (graphObjs h g);
          edges = g_edges (graphObjs h g);
          h2 = cloneNodes h1 graph nodes;
          h3 = cloneEdges h2 graph edges
      in (graph, h3))"

section \<open>Example inputs\<close>

definition argId :: "string option \<times> int option \<Rightarrow> string" where
  "argId a = normalizeId (fst a) (snd a)"

definition threeNodes :: "(string option \<times> int option) list" where
  "threeNodes = [(Some ''A'', Some 0), (None, Some 12), (Some ''B'', None)]"

text \<open>An undirected graph (reference 0) with the nodes A (0) and B (1), and the same graph
  after \<^verbatim>\<open>addEdge('A', 'B')\<close>.\<close>

definition exU :: heap where
  "exU = snd (addNode (snd (addNode (snd (Graph_new emptyHeap None)) 0 (Some ''A'') None)) 0
                 (Some ''B'') None)"

definition exU_AB :: heap where
  "exU_AB = snd (addEdge exU 0 (NodeId ''A'') (NodeId ''B'') None)"

text \<open>The invocations a traversal made of its observed callback, when it returned.\<close>

definition callsOf ::
  "error + heap \<times> 's \<times> (ref \<times> ref option \<times> bool) list \<Rightarrow> (ref \<times> ref option \<times> bool) list option" where
  "callsOf r = (case r of Inl _ \<Rightarrow> None | Inr (h, s, calls) \<Rightarrow> Some calls)"

text \<open>A callback that never asks to stop.\<close>

definition neverStop :: "unit callback" where
  "neverStop = (\<lambda>s n from. (False, s))"

section \<open>Well-formed stores\<close>

text \<open>What one \<^verbatim>\<open>push\<close> adds to an array, when it is made.\<close>

definition pushed :: "bool \<Rightarrow> ref \<Rightarrow> ref list" where
  "pushed b e = (if b then [e] else [])"

text \<open>The key under which an edge is stored: \<^verbatim>\<open>e.node1.id + '-' + e.node2.id\<close>.\<close>

definition edgeKeyOf :: "heap \<Rightarrow> ref \<Rightarrow> string" where
  "edgeKeyOf h e =
     edgeKey (n_id (nodeObjs h (e_node1 (edgeObjs h e)))) (n_id (nodeObjs h (e_node2 (edgeObjs h e))))"

text \<open>
  A graph as the operations of the class build it: \<^verbatim>\<open>nodes\<close> and \<^verbatim>\<open>edges\<close> hold existing
  objects without repetition, every node is hosted by the graph and indexed under its id,
  every edge joins two nodes of the graph and is indexed under its key, and both indices
  hold nothing else.
\<close>

definition graph_ok :: "heap \<Rightarrow> ref \<Rightarrow> bool" where
  "graph_ok h g \<longleftrightarrow>
     distinct (g_nodes (graphObjs h g))
   \<and> distinct (g_edges (graphObjs h g))
   \<and> (\<forall>n\<in>set (g_nodes (graphObjs h g)).
          n < nodeLim h
        \<and> n_hostGraph (nodeObjs h n) = Some g
        \<and> g_nodesMap (graphObjs h g) (generateNodeKey (n_id (nodeObjs h n))) = Some n)
   \<and> (\<forall>e\<in>set (g_edges (graphObjs h g)).
          e < edgeLim h
        \<and> e_node1 (edgeObjs h e) \<in> set (g_nodes (graphObjs h g))
        \<and> e_node2 (edgeObjs h e) \<in> set (g_nodes (graphObjs h g))
        \<and> g_edgesMap (graphObjs h g) (edgeKeyOf h e) = Some e)
   \<and> (\<forall>k n. g_nodesMap (graphObjs h g) k = Some n \<longrightarrow>
          n \<in> set (g_nodes (graphObjs h g)) \<and> k = generateNodeKey (n_id (nodeObjs h n)))
   \<and> (\<forall>k e. g_edgesMap (graphObjs h g) k = Some e \<longrightarrow>
          e \<in> set (g_edges (graphObjs h g)) \<and> k = edgeKeyOf h e)"

text \<open>
  A store in which every graph is well-formed and no array or field refers to an object
  that does not exist.
\<close>

definition heap_ok :: "heap \<Rightarrow> bool" where
  "heap_ok h \<longleftrightarrow>
     (\<forall>g<graphLim h. graph_ok h g)
   \<and> (\<forall>n<nodeLim h. \<forall>e\<in>set (n_edges (nodeObjs h n)) \<union> set (n_inEdges (nodeObjs h n))
                          \<union> set (n_outEdges (nodeObjs h n)). e < edgeLim h)
   \<and> (\<forall>e<edgeLim h. e_node1 (edgeObjs h e) < nodeLim h \<and> e_node2 (edgeObjs h e) < nodeLim h)"

text \<open>
  An endpoint argument that is a \<^verbatim>\<open>GraphNode\<close> is a node of the graph it is handed to
  (\<^verbatim>\<open>addEdge\<close> does not check it).
\<close>

definition ownArg :: "heap \<Rightarrow> ref \<Rightarrow> nodeArg \<Rightarrow> bool" where
  "ownArg h g a = (case a of NodeRef r \<Rightarrow> r \<in> set (g_nodes (graphObjs h g)) | _ \<Rightarrow> True)"

text \<open>A record table with the given live sequence of storage indices and nothing stored.\<close>

definition tableOf :: "int list \<Rightarrow> List" where
  "tableOf raws =
     \<lparr>indices = raws, fieldValues = (\<lambda>_ _. Undefined), itemVisuals = (\<lambda>_ _. Undefined),
      itemLayouts = (\<lambda>_. Undefined), graphicEls = (\<lambda>_. Undefined)\<rparr>"

text \<open>\<^verbatim>\<open>graph.data = data; graph.edgeData = edgeData\<close>, as the code that builds a graph does.\<close>

definition bindTables :: "heap \<Rightarrow> ref \<Rightarrow> List \<Rightarrow> List \<Rightarrow> heap" where
  "bindTables h g data edgeData =
     updGraph g (\<lambda>G. G\<lparr>g_data := Some data, g_edgeData := Some edgeData\<rparr>) h"

text \<open>
  A directed graph (reference 0) with the nodes A, B, C (0, 1, 2), then with the edge A-B (0),
  then with the edge A-C (1), then bound to a node table in which the storage indices 2 and 0
  are live (B is filtered out) and an edge table in which both rows are live.
\<close>

definition exD_nodes :: heap where
  "exD_nodes = snd (addNodes (snd (Graph_new emptyHeap (Some True))) 0
                      [(Some ''A'', Some 0), (Some ''B'', Some 1), (Some ''C'', Some 2)])"

definition exD_edge :: heap where
  "exD_edge = snd (addEdge exD_nodes 0 (NodeId ''A'') (NodeId ''B'') (Some 0))"

definition exD_edges :: heap where
  "exD_edges = snd (addEdge exD_edge 0 (NodeId ''A'') (NodeId ''C'') (Some 1))"

definition exD :: heap where
  "exD = bindTables exD_edges 0 (tableOf [2, 0]) (tableOf [0, 1])"






text \<open>
  Two stores with the same objects and the same topology: they differ at most in the
  \<^verbatim>\<open>dataIndex\<close> of nodes and edges, in the \<^verbatim>\<open>__visited\<close> flags and in the bound tables.
\<close>

definition same_struct :: "heap \<Rightarrow> heap \<Rightarrow> bool" where
  "same_struct h h' \<longleftrightarrow>
     graphLim h' = graphLim h \<and> nodeLim h' = nodeLim h \<and> edgeLim h' = edgeLim h
   \<and> (\<forall>g. g_nodes (graphObjs h' g) = g_nodes (graphObjs h g)
          \<and> g_edges (graphObjs h' g) = g_edges (graphObjs h g)
          \<and> g_directed (graphObjs h' g) = g_directed (graphObjs h g)
          \<and> g_nodesMap (graphObjs h' g) = g_nodesMap (graphObjs h g)
          \<and> g_edgesMap (graphObjs h' g) = g_edgesMap (graphObjs h g))
   \<and> (\<forall>n. n_id (nodeObjs h' n) = n_id (nodeObjs h n)
          \<and> n_inEdges (nodeObjs h' n) = n_inEdges (nodeObjs h n)
          \<and> n_outEdges (nodeObjs h' n) = n_outEdges (nodeObjs h n)
          \<and> n_edges (nodeObjs h' n) = n_edges (nodeObjs h n)
          \<and> n_hostGraph (nodeObjs h' n) = n_hostGraph (nodeObjs h n))
   \<and> (\<forall>e. e_node1 (edgeObjs h' e) = e_node1 (edgeObjs h e)
          \<and> e_node2 (edgeObjs h' e) = e_node2 (edgeObjs h e))"

text \<open>An invocation of the callback that returned false.\<close>

definition notStop :: "ref \<times> ref option \<times> bool \<Rightarrow> bool" where
  "notStop c = (\<not> snd (snd c))"

text \<open>A callback that asks to stop at one node.\<close>

definition stopAt :: "ref \<Rightarrow> unit callback" where
  "stopAt n = (\<lambda>s node from. (node = n, s))"

section \<open>The accessors mixed into \<^verbatim>\<open>GraphNode\<close> and \<^verbatim>\<open>GraphEdge\<close>\<close>

text \<open>
  Modelled from the spec: the accessors of a record table, keyed by the position of a row:
  a named field's value, a named visual attribute, a layout payload (replaced, or merged
  with the one already there) and the rendering handle.
\<close>

definition List_getDimension :: "List \<Rightarrow> string \<Rightarrow> string" where
  "List_getDimension L dim = dim"

definition List_get :: "List \<Rightarrow> string \<Rightarrow> int \<Rightarrow> jsval" where
  "List_get L dim idx = fieldValues L dim idx"

definition List_getItemVisual :: "List \<Rightarrow> int \<Rightarrow> string \<Rightarrow> bool \<Rightarrow> jsval" where
  "List_getItemVisual L idx key ignoreParent = itemVisuals L idx key"

definition List_setItemVisual :: "List \<Rightarrow> int \<Rightarrow> string \<Rightarrow> jsval \<Rightarrow> List" where
  "List_setItemVisual L idx key v = L\<lparr>itemVisuals := (itemVisuals L)(idx := (itemVisuals L idx)(key := v))\<rparr>"

text \<open>Modelled from the spec: merging a layout into the one already stored.\<close>

definition extend :: "jsval \<Rightarrow> jsval \<Rightarrow> jsval" where
  "extend target source =
     (case (target, source) of
        (Obj t, Obj s) \<Rightarrow> Obj (s @ filter (\<lambda>kv. fst kv \<notin> fst ` set s) t)
      | (_, Obj s) \<Rightarrow> Obj s
      | (t, _) \<Rightarrow> t)"

definition List_getItemLayout :: "List \<Rightarrow> int \<Rightarrow> jsval" where
  "List_getItemLayout L idx = itemLayouts L idx"

definition List_setItemLayout :: "List \<Rightarrow> int \<Rightarrow> jsval \<Rightarrow> bool \<Rightarrow> List" where
  "List_setItemLayout L idx layout merge =
     L\<lparr>itemLayouts := (itemLayouts L)(idx := (if merge then extend (itemLayouts L idx) layout else layout))\<rparr>"

definition List_getItemGraphicEl :: "List \<Rightarrow> int \<Rightarrow> jsval" where
  "List_getItemGraphicEl L idx = graphicEls L idx"

text \<open>\<^verbatim>\<open>this\<close> in a mixed-in method: a node or an edge.\<close>

datatype host = HostNode ref | HostEdge ref

definition host_hostGraph :: "heap \<Rightarrow> host \<Rightarrow> ref option" where
  "host_hostGraph h this =
     (case this of HostNode n \<Rightarrow> n_hostGraph (nodeObjs h n) | HostEdge e \<Rightarrow> e_hostGraph (edgeObjs h e))"

definition host_dataIndex :: "heap \<Rightarrow> host \<Rightarrow> int" where
  "host_dataIndex h this =
     (case this of HostNode n \<Rightarrow> n_dataIndex (nodeObjs h n) | HostEdge e \<Rightarrow> e_dataIndex (edgeObjs h e))"

text \<open>\<^verbatim>\<open>dataName: 'data' | 'edgeData'\<close>, the field of the host graph a method reads.\<close>

datatype dataName = DataName_data | DataName_edgeData

text \<open>
  \<^verbatim>\<open>this[hostName][dataName]\<close>, where \<^verbatim>\<open>hostName\<close> is always \<^verbatim>\<open>'hostGraph'\<close>, followed by a
  method call: an entity without host graph, or a table that was never bound, raises
  \<^verbatim>\<open>TypeError\<close>.
\<close>

definition readTable :: "heap \<Rightarrow> host \<Rightarrow> dataName \<Rightarrow> error + List" where
  "readTable h this dataName =
     (case host_hostGraph h this of
        None \<Rightarrow> Inl TypeError
      | Some g \<Rightarrow>
          (case (case dataName of
                   DataName_data \<Rightarrow> g_data (graphObjs h g)
                 | DataName_edgeData \<Rightarrow> g_edgeData (graphObjs h g)) of
             None \<Rightarrow> Inl TypeError
           | Some L \<Rightarrow> Inr L))"

text \<open>The table after a method has mutated it, as the host graph then sees it.\<close>

definition writeTable :: "heap \<Rightarrow> host \<Rightarrow> dataName \<Rightarrow> List \<Rightarrow> heap" where
  "writeTable h this dataName L =
     (case host_hostGraph h this of
        None \<Rightarrow> h
      | Some g \<Rightarrow>
          (case dataName of
             DataName_data \<Rightarrow> updGraph g (\<lambda>G. G\<lparr>g_data := Some L\<rparr>) h
           | DataName_edgeData \<Rightarrow> updGraph g (\<lambda>G. G\<lparr>g_edgeData := Some L\<rparr>) h))"

text \<open>The object \<^verbatim>\<open>createGraphDataProxyMixin\<close> returns: seven methods.\<close>

record proxyMixin =
  getValue :: "heap \<Rightarrow> host \<Rightarrow> string option \<Rightarrow> error + jsval"
  setVisual :: "heap \<Rightarrow> host \<Rightarrow> string \<Rightarrow> jsval \<Rightarrow> error + heap"
  getVisual :: "heap \<Rightarrow> host \<Rightarrow> string \<Rightarrow> bool \<Rightarrow> error + jsval"
  setLayout :: "heap \<Rightarrow> host \<Rightarrow> jsval \<Rightarrow> bool \<Rightarrow> error + heap"
  getLayout :: "heap \<Rightarrow> host \<Rightarrow> error + jsval"
  getGraphicEl :: "heap \<Rightarrow> host \<Rightarrow> error + jsval"
  getRawIndex :: "heap \<Rightarrow> host \<Rightarrow> error + int"

definition createGraphDataProxyMixin :: "dataName \<Rightarrow> proxyMixin" where
  "createGraphDataProxyMixin dataName =
     \<lparr>getValue = (\<lambda>h this dimension.
        case readTable h this dataName of
          Inl err \<Rightarrow> Inl err
        | Inr data \<Rightarrow>
            Inr (List_get data
                   (List_getDimension data
                      (case dimension of None \<Rightarrow> ''value'' | Some d \<Rightarrow> if d = [] then ''value'' else d))
                   (host_dataIndex h this))),
      setVisual = (\<lambda>h this key v.
        if 0 \<le> host_dataIndex h this
        then (case readTable h this dataName of
                Inl err \<Rightarrow> Inl err
              | Inr data \<Rightarrow>
                  Inr (writeTable h this dataName (List_setItemVisual data (host_dataIndex h this) key v)))
        else Inr h),
      getVisual = (\<lambda>h this key ignoreParent.
        case readTable h this dataName of
          Inl err \<Rightarrow> Inl err
        | Inr data \<Rightarrow> Inr (List_getItemVisual data (host_dataIndex h this) key ignoreParent)),
      setLayout = (\<lambda>h this layout merge.
        if 0 \<le> host_dataIndex h this
        then (case readTable h this dataName of
                Inl err \<Rightarrow> Inl err
              | Inr data \<Rightarrow>
                  Inr (writeTable h this dataName (List_setItemLayout data (host_dataIndex h this) layout merge)))
        else Inr h),
      getLayout = (\<lambda>h this.
        case readTable h this dataName of
          Inl err \<Rightarrow> Inl err
        | Inr data \<Rightarrow> Inr (List_getItemLayout data (host_dataIndex h this))),
      getGraphicEl = (\<lambda>h this.
        case readTable h this dataName of
          Inl err \<Rightarrow> Inl err
        | Inr data \<Rightarrow> Inr (List_getItemGraphicEl data (host_dataIndex h this))),
      getRawIndex = (\<lambda>h this.
        case readTable h this dataName of
          Inl err \<Rightarrow> Inl err
        | Inr data \<Rightarrow> Inr (List_getRawIndex data (host_dataIndex h this)))\<rparr>"

text \<open>
  \<^verbatim>\<open>zrUtil.mixin(GraphEdge, createGraphDataProxyMixin('hostGraph', 'data'))\<close> and
  \<^verbatim>\<open>zrUtil.mixin(GraphNode, createGraphDataProxyMixin('hostGraph', 'edgeData'))\<close>: the
  methods of the mixin become the methods of the class.
\<close>

definition GraphEdge_proxy :: proxyMixin where
  "GraphEdge_proxy = createGraphDataProxyMixin DataName_data"

definition GraphNode_proxy :: proxyMixin where
  "GraphNode_proxy = createGraphDataProxyMixin DataName_edgeData"

text \<open>The layout stored at a position in the node table and in the edge table of a graph.\<close>

definition layoutsAt :: "int \<Rightarrow> error + heap \<Rightarrow> ref \<Rightarrow> (jsval option \<times> jsval option) option" where
  "layoutsAt idx r g =
     (case r of
        Inl _ \<Rightarrow> None
      | Inr h \<Rightarrow> Some (map_option (\<lambda>L. itemLayouts L idx) (g_data (graphObjs h g)),
                        map_option (\<lambda>L. itemLayouts L idx) (g_edgeData (graphObjs h g))))"

text \<open>
  The adjacency lists of a graph agree with its edges: every edge of the graph occurs exactly
  once in the \<^verbatim>\<open>edges\<close> of its first endpoint and exactly once in the \<^verbatim>\<open>edges\<close> of its second
  endpoint (for a self-loop these are one list), and in a directed graph it occurs in the
  \<^verbatim>\<open>outEdges\<close> of the first and the \<^verbatim>\<open>inEdges\<close> of the second; every edge in a list of a node
  of the graph is an edge of the graph; in an undirected graph \<^verbatim>\<open>inEdges\<close> and \<^verbatim>\<open>outEdges\<close>
  are empty.
\<close>

definition adjacency :: "heap \<Rightarrow> ref \<Rightarrow> bool" where
  "adjacency h g \<longleftrightarrow>
     (\<forall>e\<in>set (g_edges (graphObjs h g)).
          count_list (n_edges (nodeObjs h (e_node1 (edgeObjs h e)))) e = 1
        \<and> count_list (n_edges (nodeObjs h (e_node2 (edgeObjs h e)))) e = 1
        \<and> (g_directed (graphObjs h g) \<longrightarrow>
              e \<in> set (n_outEdges (nodeObjs h (e_node1 (edgeObjs h e))))
            \<and> e \<in> set (n_inEdges (nodeObjs h (e_node2 (edgeObjs h e))))))
   \<and> (\<forall>n\<in>set (g_nodes (graphObjs h g)).
          set (n_edges (nodeObjs h n)) \<union> set (n_inEdges (nodeObjs h n)) \<union> set (n_outEdges (nodeObjs h n))
            \<subseteq> set (g_edges (graphObjs h g)))
   \<and> (\<not> g_directed (graphObjs h g) \<longrightarrow>
        (\<forall>n\<in>set (g_nodes (graphObjs h g)).
            n_inEdges (nodeObjs h n) = [] \<and> n_outEdges (nodeObjs h n) = []))"

text \<open>
  The same, in the words of the claim: the edge occurs in the \<^verbatim>\<open>edges\<close> of its second
  endpoint exactly when the two endpoints are distinct.
\<close>

definition adjacency_as_claimed :: "heap \<Rightarrow> ref \<Rightarrow> bool" where
  "adjacency_as_claimed h g \<longleftrightarrow>
     (\<forall>e\<in>set (g_edges (graphObjs h g)).
          e \<in> set (n_edges (nodeObjs h (e_node1 (edgeObjs h e))))
        \<and> (e \<in> set (n_edges (nodeObjs h (e_node2 (edgeObjs h e))))
             \<longleftrightarrow> e_node1 (edgeObjs h e) \<noteq> e_node2 (edgeObjs h e))
        \<and> (g_directed (graphObjs h g) \<longrightarrow>
              e \<in> set (n_outEdges (nodeObjs h (e_node1 (edgeObjs h e))))
            \<and> e \<in> set (n_inEdges (nodeObjs h (e_node2 (edgeObjs h e))))))
   \<and> (\<forall>n\<in>set (g_nodes (graphObjs h g)).
          set (n_edges (nodeObjs h n)) \<union> set (n_inEdges (nodeObjs h n)) \<union> set (n_outEdges (nodeObjs h n))
            \<subseteq> set (g_edges (graphObjs h g)))
   \<and> (\<not> g_directed (graphObjs h g) \<longrightarrow>
        (\<forall>n\<in>set (g_nodes (graphObjs h g)).
            n_inEdges (nodeObjs h n) = [] \<and> n_outEdges (nodeObjs h n) = []))"

text \<open>A well-formed store in which the adjacency lists of every graph agree with its edges.\<close>

definition store_ok :: "heap \<Rightarrow> bool" where
  "store_ok h \<longleftrightarrow> heap_ok h \<and> (\<forall>g<graphLim h. adjacency h g)"

text \<open>
  The undirected graph with the nodes A and B after \<^verbatim>\<open>addEdge(A, A)\<close>; the same store with a
  second, directed and empty graph (reference 1); and that store after the second graph
  was handed the nodes of the first in \<^verbatim>\<open>addEdge(A, B)\<close>.
\<close>

definition exLoop :: heap where
  "exLoop = snd (addEdge exU 0 (NodeRef 0) (NodeRef 0) None)"

definition exG2 :: heap where
  "exG2 = snd (Graph_new exU (Some True))"

definition exForeign :: heap where
  "exForeign = snd (addEdge exG2 1 (NodeRef 0) (NodeRef 1) None)"

text \<open>What a caller reads of a node (\<^verbatim>\<open>id\<close>, \<^verbatim>\<open>dataIndex\<close>) and of an edge (\<^verbatim>\<open>node1.id\<close>,
  \<^verbatim>\<open>node2.id\<close>, \<^verbatim>\<open>dataIndex\<close>); two graphs are compared through these.\<close>

definition nodeView :: "heap \<Rightarrow> ref \<Rightarrow> string \<times> int" where
  "nodeView h n = (n_id (nodeObjs h n), n_dataIndex (nodeObjs h n))"

definition edgeView :: "heap \<Rightarrow> ref \<Rightarrow> string \<times> string \<times> int" where
  "edgeView h e =
     (n_id (nodeObjs h (e_node1 (edgeObjs h e))), n_id (nodeObjs h (e_node2 (edgeObjs h e))),
      e_dataIndex (edgeObjs h e))"

text \<open>\<^verbatim>\<open>e.node1.id\<close> and \<^verbatim>\<open>e.node2.id\<close>, the arguments \<^verbatim>\<open>clone\<close> passes to \<^verbatim>\<open>addEdge\<close>.\<close>

definition srcId1 :: "heap \<Rightarrow> ref \<Rightarrow> string" where
  "srcId1 h e = n_id (nodeObjs h (e_node1 (edgeObjs h e)))"

definition srcId2 :: "heap \<Rightarrow> ref \<Rightarrow> string" where
  "srcId2 h e = n_id (nodeObjs h (e_node2 (edgeObjs h e)))"

text \<open>
  What the operations establish of every graph, whichever nodes \<^verbatim>\<open>addEdge\<close> was handed:
  \<^verbatim>\<open>nodes\<close> and \<^verbatim>\<open>edges\<close> hold existing objects without repetition, every node is indexed
  under its id, the node index holds existing nodes, and every edge joins existing nodes and
  is indexed under its key. Unlike \<open>graph_ok\<close> it does not ask that the endpoints of an edge
  are nodes of the graph, nor that a node is hosted by it.
\<close>

definition graph_built :: "heap \<Rightarrow> ref \<Rightarrow> bool" where
  "graph_built h g \<longleftrightarrow>
     (let G = graphObjs h g in
        distinct (g_nodes G) \<and> distinct (g_edges G)
      \<and> (\<forall>n\<in>set (g_nodes G). n < nodeLim h
            \<and> g_nodesMap G (generateNodeKey (n_id (nodeObjs h n))) = Some n)
      \<and> (\<forall>k n. g_nodesMap G k = Some n \<longrightarrow> n < nodeLim h)
      \<and> (\<forall>e\<in>set (g_edges G). e < edgeLim h
            \<and> e_node1 (edgeObjs h e) < nodeLim h \<and> e_node2 (edgeObjs h e) < nodeLim h
            \<and> g_edgesMap G (edgeKeyOf h e) = Some e))"

text \<open>Every graph of the store is such a graph.\<close>

definition store_built :: "heap \<Rightarrow> bool" where
  "store_built h \<longleftrightarrow> (\<forall>g<graphLim h. graph_built h g)"

text \<open>An endpoint argument that is a \<^verbatim>\<open>GraphNode\<close> is an existing object, of whichever graph.\<close>

definition allocArg :: "heap \<Rightarrow> nodeArg \<Rightarrow> bool" where
  "allocArg h a = (case a of NodeRef r \<Rightarrow> r < nodeLim h | _ \<Rightarrow> True)"

text \<open>
  The id of every edge endpoint is the id of a node of the graph. In a graph whose edges join
  its own nodes this holds; it is what \<^verbatim>\<open>clone\<close>, which adds the edges by the ids of their
  endpoints, needs to find each endpoint among the nodes it has copied.
\<close>

definition endIdsOwn :: "heap \<Rightarrow> ref \<Rightarrow> bool" where
  "endIdsOwn h g \<longleftrightarrow>
     (\<forall>e\<in>set (g_edges (graphObjs h g)).
        srcId1 h e \<in> (\<lambda>n. n_id (nodeObjs h n)) ` set (g_nodes (graphObjs h g))
      \<and> srcId2 h e \<in> (\<lambda>n. n_id (nodeObjs h n)) ` set (g_nodes (graphObjs h g)))"

text \<open>
  The store \<open>exG2\<close> after its second graph has got nodes A and B of its own (2 and 3), and
  after that graph was then handed the nodes of the first in \<^verbatim>\<open>addEdge(A, B)\<close>: the endpoints
  of its edge are not its nodes, but they carry the ids of its nodes.
\<close>

definition exTwin_nodes :: heap where
  "exTwin_nodes = snd (addNodes exG2 1 [(Some ''A'', None), (Some ''B'', None)])"

definition exTwin :: heap where
  "exTwin = snd (addEdge exTwin_nodes 1 (NodeRef 0) (NodeRef 1) None)"

section \<open>Basic facts\<close>

lemmas heap_defs = updGraph_def updNode_def updEdge_def allocGraph_def allocNode_def allocEdge_def

lemma generateNodeKey_inj [simp]: "generateNodeKey a = generateNodeKey b \<longleftrightarrow> a = b"
  by (simp add: generateNodeKey_def)

lemma addNode_dup:
  "g_nodesMap (graphObjs h g) (generateNodeKey (normalizeId ident di)) \<noteq> None \<Longrightarrow>
     addNode h g ident di = (None, h)"
  by (simp add: addNode_def Let_def)

lemma addNode_fresh:
  assumes "g_nodesMap (graphObjs h g) (generateNodeKey (normalizeId ident di)) = None"
  shows "addNode h g ident di =
     (Some (nodeLim h),
      h\<lparr>graphObjs := (graphObjs h)(g := (graphObjs h g)
           \<lparr>g_nodes := g_nodes (graphObjs h g) @ [nodeLim h],
            g_nodesMap := (g_nodesMap (graphObjs h g))
                            (generateNodeKey (normalizeId ident di) \<mapsto> nodeLim h)\<rparr>),
        nodeObjs := (nodeObjs h)(nodeLim h :=
           (GraphNode_new (Some (normalizeId ident di)) di)\<lparr>n_hostGraph := Some g\<rparr>),
        nodeLim := Suc (nodeLim h)\<rparr>)"
  using assms by (simp add: addNode_def Let_def heap_defs)

lemma argId_fun: "argId = (\<lambda>a. normalizeId (fst a) (snd a))"
  by (rule ext) (simp add: argId_def)

lemma addNodes_spec:
  assumes "distinct (map argId args)"
    and "\<forall>a\<in>set args. g_nodesMap (graphObjs h g) (generateNodeKey (argId a)) = None"
    and "addNodes h g args = (rs, h')"
  shows "rs = map Some [nodeLim h ..< nodeLim h + length args]
       \<and> nodeLim h' = nodeLim h + length args
       \<and> (\<forall>r<nodeLim h. nodeObjs h' r = nodeObjs h r)
       \<and> (\<forall>k. k \<notin> generateNodeKey ` argId ` set args \<longrightarrow>
              g_nodesMap (graphObjs h' g) k = g_nodesMap (graphObjs h g) k)
       \<and> (\<forall>k<length args.
              g_nodesMap (graphObjs h' g) (generateNodeKey (argId (args ! k))) = Some (nodeLim h + k)
            \<and> n_id (nodeObjs h' (nodeLim h + k)) = argId (args ! k))"
  using assms
proof (induction args arbitrary: h rs)
  case Nil
  then show ?case by simp
next
  case (Cons a as)
  let ?k = "generateNodeKey (argId a)"
  have fresh: "g_nodesMap (graphObjs h g) ?k = None" using Cons.prems(2) by simp
  obtain h1 where h1: "addNode h g (fst a) (snd a) = (Some (nodeLim h), h1)"
    and lim1: "nodeLim h1 = Suc (nodeLim h)"
    and map1: "g_nodesMap (graphObjs h1 g) = (g_nodesMap (graphObjs h g))(?k \<mapsto> nodeLim h)"
    and obj1: "nodeObjs h1 = (nodeObjs h)(nodeLim h :=
           (GraphNode_new (Some (argId a)) (snd a))\<lparr>n_hostGraph := Some g\<rparr>)"
    using addNode_fresh [of h g "fst a" "snd a"] fresh by (simp add: argId_def)
  obtain rs1 where rest: "addNodes h1 g as = (rs1, h')" and rs: "rs = Some (nodeLim h) # rs1"
    using Cons.prems(3) h1 by (auto simp: Let_def split: prod.splits)
  have d: "distinct (map argId as)" and notin: "argId a \<notin> argId ` set as"
    using Cons.prems(1) by auto
  have pre: "\<forall>b\<in>set as. g_nodesMap (graphObjs h1 g) (generateNodeKey (argId b)) = None"
  proof
    fix b assume b: "b \<in> set as"
    then have "argId b \<noteq> argId a" using notin by (metis imageI)
    then show "g_nodesMap (graphObjs h1 g) (generateNodeKey (argId b)) = None"
      using Cons.prems(2) b by (simp add: map1)
  qed
  note IH = Cons.IH [OF d pre rest]
  have c1: "rs = map Some [nodeLim h ..< nodeLim h + length (a # as)]"
  proof -
    have "[nodeLim h ..< nodeLim h + length (a # as)]
            = nodeLim h # [nodeLim h1 ..< nodeLim h1 + length as]"
      by (subst upt_rec) (simp add: lim1 del: upt_Suc)
    then show ?thesis using IH rs by (simp del: upt_Suc)
  qed
  have c2: "nodeLim h' = nodeLim h + length (a # as)" using IH lim1 by simp
  have c3: "\<forall>r<nodeLim h. nodeObjs h' r = nodeObjs h r" using IH lim1 obj1 by simp
  have c4: "\<forall>k. k \<notin> generateNodeKey ` argId ` set (a # as) \<longrightarrow>
              g_nodesMap (graphObjs h' g) k = g_nodesMap (graphObjs h g) k"
    using IH map1 by auto
  have head: "g_nodesMap (graphObjs h' g) ?k = Some (nodeLim h)
      \<and> n_id (nodeObjs h' (nodeLim h)) = argId a"
  proof -
    have "?k \<notin> generateNodeKey ` argId ` set as" using notin by auto
    then have "g_nodesMap (graphObjs h' g) ?k = g_nodesMap (graphObjs h1 g) ?k" using IH by blast
    moreover have "nodeObjs h' (nodeLim h) = nodeObjs h1 (nodeLim h)" using IH lim1 by simp
    ultimately show ?thesis by (simp add: map1 obj1 GraphNode_new_def)
  qed
  have c5: "\<forall>k<length (a # as).
              g_nodesMap (graphObjs h' g) (generateNodeKey (argId ((a # as) ! k))) = Some (nodeLim h + k)
            \<and> n_id (nodeObjs h' (nodeLim h + k)) = argId ((a # as) ! k)"
  proof (intro allI impI)
    fix k assume k: "k < length (a # as)"
    show "g_nodesMap (graphObjs h' g) (generateNodeKey (argId ((a # as) ! k))) = Some (nodeLim h + k)
            \<and> n_id (nodeObjs h' (nodeLim h + k)) = argId ((a # as) ! k)"
    proof (cases k)
      case 0
      then show ?thesis using head by simp
    next
      case (Suc j)
      then have "j < length as" using k by simp
      then show ?thesis using IH lim1 Suc by simp
    qed
  qed
  show ?case using c1 c2 c3 c4 c5 by blast
qed

text \<open>An integer of magnitude below \<open>2^53\<close> is a double and prints as its plain decimal numeral.\<close>

lemma bitLength_le: "bitLength a \<le> k \<longleftrightarrow> a < 2 ^ k"
proof (induction k arbitrary: a)
  case 0
  show ?case by (subst bitLength.simps) simp
next
  case (Suc k)
  have "bitLength a \<le> Suc k \<longleftrightarrow> a = 0 \<or> bitLength (a div 2) \<le> k"
    by (subst bitLength.simps) simp
  also have "\<dots> \<longleftrightarrow> a = 0 \<or> a div 2 < 2 ^ k" by (simp only: Suc.IH)
  also have "\<dots> \<longleftrightarrow> a < 2 ^ Suc k" by auto
  finally show ?case .
qed

lemma nearestDouble_small:
  assumes "nearestDouble a = Some v" and "v < 2 ^ 53"
  shows "a = v"
proof (cases "bitLength a \<le> 53")
  case True
  with assms(1) show ?thesis by (simp add: nearestDouble_def)
next
  case False
  define e where "e = bitLength a - 53"
  define q where "q = a div 2 ^ e"
  define m where "m = (if 2 ^ (e - 1) < a mod 2 ^ e \<or> (a mod 2 ^ e = 2 ^ (e - 1) \<and> odd q) then q + 1 else q)"
  from False have "\<not> bitLength a \<le> 52 + e" by (simp add: e_def)
  then have "2 ^ (52 + e) \<le> a" by (simp add: bitLength_le)
  then have "2 ^ 52 * 2 ^ e \<le> a" by (simp add: power_add)
  then have "2 ^ 52 \<le> q" unfolding q_def by (simp add: less_eq_div_iff_mult_less_eq)
  then have "2 ^ 52 \<le> m" by (simp add: m_def)
  moreover have "1 \<le> e" using False by (simp add: e_def)
  then have "(2::nat) ^ 1 \<le> 2 ^ e" by (rule power_increasing) simp
  then have "(2::nat) \<le> 2 ^ e" by simp
  ultimately have "2 ^ 52 * 2 \<le> m * 2 ^ e" by (rule mult_le_mono)
  then have "(2::nat) ^ 53 \<le> m * 2 ^ e" by simp
  moreover have "nearestDouble a = (if 2 ^ 1024 \<le> m * 2 ^ e then None else Some (m * 2 ^ e))"
    unfolding nearestDouble_def Let_def m_def q_def e_def using False by (simp only: if_False)
  with assms(1) have "v = m * 2 ^ e" by (metis option.distinct(1) option.inject)
  ultimately show ?thesis using assms(2) by simp
qed

lemma shortest_small:
  assumes "v < 2 ^ 53"
  shows "fst (shortest v z) = v"
proof (induction z)
  case 0
  show ?case by simp
next
  case (Suc z)
  have r: "\<And>c. roundsTo c v \<Longrightarrow> c = v"
    using nearestDouble_small [OF _ assms] by (simp add: roundsTo_def)
  show ?case using Suc r by (auto simp add: Let_def)
qed

lemma length_natToString: "0 < k \<Longrightarrow> n < 10 ^ k \<Longrightarrow> length (natToString n) \<le> k"
proof (induction k arbitrary: n)
  case 0
  then show ?case by simp
next
  case (Suc k)
  show ?case
  proof (cases "n < 10")
    case True
    then show ?thesis by (subst natToString.simps) simp
  next
    case False
    then have k: "0 < k" using Suc.prems by (cases k) auto
    have "n div 10 < 10 ^ k" using Suc.prems by (simp add: less_mult_imp_div_less mult.commute)
    from Suc.IH [OF k this] False show ?thesis by (subst natToString.simps) simp
  qed
qed

lemma jsDigits_small:
  assumes "v < 2 ^ 53"
  shows "jsDigits v = natToString v"
proof -
  obtain c z where cz: "shortest v (length (natToString v)) = (c, z)" by (cases "shortest v (length (natToString v))")
  with shortest_small [OF assms, of "length (natToString v)"] have c: "c = v" by simp
  have "v < (10::nat) ^ 21" using assms by simp
  then have "length (natToString v) \<le> 21" by (rule length_natToString [rotated]) simp
  then show ?thesis by (simp add: jsDigits_def cz c)
qed

lemma numToString_safe:
  assumes "\<bar>i\<bar> < 2 ^ 53"
  shows "numToString i = (if i < 0 then CHR ''-'' # natToString (nat (- i)) else natToString (nat i))"
proof -
  have z: "natToString 0 = ''0''" by (subst natToString.simps) simp
  show ?thesis
  proof (cases "i < 0")
    case True
    then have lt: "nat (- i) < 2 ^ 53" using assms by (simp add: nat_less_iff)
    then have "nearestDouble (nat (- i)) = Some (nat (- i))"
      by (simp add: nearestDouble_def bitLength_le)
    with True show ?thesis by (simp add: numToString_def jsDigits_small [OF lt])
  next
    case False
    then have lt: "nat i < 2 ^ 53" using assms by (simp add: nat_less_iff)
    then have "nearestDouble (nat i) = Some (nat i)"
      by (simp add: nearestDouble_def bitLength_le)
    with False show ?thesis by (simp add: numToString_def jsDigits_small [OF lt] z)
  qed
qed

text \<open>Beyond \<open>2^53\<close> the digits are rounded, and from \<open>10^21\<close> on the exponent is written.\<close>

lemma bitLength_numeral:
  "bitLength 0 = 0" "bitLength (Suc 0) = Suc 0" "bitLength 1 = Suc 0"
  "bitLength (numeral n) = Suc (bitLength (numeral n div 2))"
  by (subst bitLength.simps, simp)+

lemma natToString_numeral:
  "natToString (numeral n) =
     (if (numeral n :: nat) < 10 then [''0123456789'' ! numeral n]
      else natToString (numeral n div 10) @ [''0123456789'' ! (numeral n mod 10)])"
  "natToString 0 = ''0''" "natToString 1 = ''1''" "natToString (Suc 0) = ''1''"
  by (subst natToString.simps, simp)+

lemma shortest_numeral:
  "shortest v (numeral n) =
     (let p = 10 ^ numeral n; c1 = (v div p) * p; c2 = c1 + p in
      if roundsTo c1 v \<and> roundsTo c2 v
      then (if v - c1 < c2 - v \<or> (v - c1 = c2 - v \<and> even (c1 div p)) then (c1, numeral n) else (c2, numeral n))
      else if roundsTo c1 v then (c1, numeral n)
      else if roundsTo c2 v then (c2, numeral n)
      else shortest v (pred_numeral n))"
proof -
  have e: "numeral n = Suc (pred_numeral n)" by (rule numeral_eq_Suc)
  have "shortest v (Suc (pred_numeral n)) =
     (let p = 10 ^ Suc (pred_numeral n); c1 = (v div p) * p; c2 = c1 + p in
      if roundsTo c1 v \<and> roundsTo c2 v
      then (if v - c1 < c2 - v \<or> (v - c1 = c2 - v \<and> even (c1 div p)) then (c1, Suc (pred_numeral n)) else (c2, Suc (pred_numeral n)))
      else if roundsTo c1 v then (c1, Suc (pred_numeral n))
      else if roundsTo c2 v then (c2, Suc (pred_numeral n))
      else shortest v (pred_numeral n))"
    by (rule shortest.simps(2))
  then show ?thesis by (simp only: e [symmetric])
qed

lemmas num_eval = nearestDouble_def roundsTo_def bitLength_numeral natToString_numeral Let_def

lemma numToString_2_60: "numToString 1152921504606846976 = ''1152921504606847000''"
proof -
  have nd: "nearestDouble 1152921504606846976 = Some 1152921504606846976"
    by (simp add: num_eval)
  have l: "length (natToString 1152921504606846976) = 19" by (simp add: natToString_numeral)
  have sh: "shortest 1152921504606846976 19 = (1152921504606847000, 3)"
    by (simp add: shortest_numeral num_eval)
  have n: "length (natToString 1152921504606847000) = 19" by (simp add: natToString_numeral)
  have "jsDigits 1152921504606846976 = natToString 1152921504606847000"
    unfolding jsDigits_def l sh Let_def prod.case n by simp
  then show ?thesis by (simp add: numToString_def nd natToString_numeral)
qed


lemma numToString_1e21: "numToString 1000000000000000000000 = ''1e+21''"
proof -
  have nd: "nearestDouble 1000000000000000000000 = Some 1000000000000000000000"
    by (simp add: num_eval)
  have l: "length (natToString 1000000000000000000000) = 22" by (simp add: natToString_numeral)
  have sh: "shortest 1000000000000000000000 22 = (1000000000000000000000, 21)"
    by (simp add: shortest_numeral num_eval)
  have "jsDigits 1000000000000000000000 = ''1e+21''"
    unfolding jsDigits_def l sh Let_def prod.case by (simp add: natToString_numeral)
  then show ?thesis by (simp add: numToString_def nd)
qed

lemmas eval_defs = addNode_def Let_def heap_defs normalizeId_def generateNodeKey_def
  numToString_safe natToString.simps Graph_new_def emptyHeap_def GraphNode_new_def getNodeById_def

section \<open>Node identity\<close>

text \<open>
  C5. For every sequence of \<^verbatim>\<open>addNode\<close> calls whose normalized ids are pairwise different and
  not yet in the graph, every call returns a node, the nodes returned are pairwise different,
  and afterwards \<^verbatim>\<open>getNodeById\<close> of each id returns exactly the node its call returned, which
  carries that id. An \<^verbatim>\<open>addNode\<close> call whose normalized id is already in the graph returns
  nothing and leaves the whole store as it was, so the \<^verbatim>\<open>nodes\<close> sequence and the node index
  of the graph are unchanged.
\<close>

theorem addNode_getNodeById:
  "(distinct (map (\<lambda>a. normalizeId (fst a) (snd a)) args)
      \<and> (\<forall>a\<in>set args. getNodeById h g (normalizeId (fst a) (snd a)) = None)
      \<and> addNodes h g args = (rs, h')
    \<longrightarrow> length rs = length args
        \<and> distinct rs
        \<and> (\<forall>k<length args. \<exists>node.
              rs ! k = Some node
            \<and> getNodeById h' g (normalizeId (fst (args ! k)) (snd (args ! k))) = Some node
            \<and> n_id (nodeObjs h' node) = normalizeId (fst (args ! k)) (snd (args ! k))))
   \<and> (getNodeById h g (normalizeId ident dataIndex) \<noteq> None
    \<longrightarrow> addNode h g ident dataIndex = (None, h))"
proof (intro conjI impI)
  assume a: "distinct (map (\<lambda>a. normalizeId (fst a) (snd a)) args)
      \<and> (\<forall>a\<in>set args. getNodeById h g (normalizeId (fst a) (snd a)) = None)
      \<and> addNodes h g args = (rs, h')"
  then have "distinct (map argId args)"
      "\<forall>a\<in>set args. g_nodesMap (graphObjs h g) (generateNodeKey (argId a)) = None"
      "addNodes h g args = (rs, h')"
    by (simp_all add: argId_fun getNodeById_def)
  then have spec: "rs = map Some [nodeLim h ..< nodeLim h + length args]
       \<and> (\<forall>k<length args.
              g_nodesMap (graphObjs h' g) (generateNodeKey (argId (args ! k))) = Some (nodeLim h + k)
            \<and> n_id (nodeObjs h' (nodeLim h + k)) = argId (args ! k))"
    using addNodes_spec [of args h g rs h'] by simp
  show "length rs = length args" using spec by simp
  show "distinct rs" using spec by (simp add: distinct_map)
  show "\<forall>k<length args. \<exists>node.
              rs ! k = Some node
            \<and> getNodeById h' g (normalizeId (fst (args ! k)) (snd (args ! k))) = Some node
            \<and> n_id (nodeObjs h' node) = normalizeId (fst (args ! k)) (snd (args ! k))"
    using spec by (simp add: getNodeById_def argId_def)
next
  assume "getNodeById h g (normalizeId ident dataIndex) \<noteq> None"
  then show "addNode h g ident dataIndex = (None, h)"
    by (simp add: getNodeById_def addNode_dup)
qed

theorem addNode_getNodeById_witness:
  "distinct (map (\<lambda>a. normalizeId (fst a) (snd a)) threeNodes)
   \<and> list_all (\<lambda>a. getNodeById (snd (Graph_new emptyHeap None)) 0 (normalizeId (fst a) (snd a)) = None)
        threeNodes
   \<and> fst (addNodes (snd (Graph_new emptyHeap None)) 0 threeNodes) = [Some 0, Some 1, Some 2]
   \<and> getNodeById (snd (addNodes (snd (Graph_new emptyHeap None)) 0 threeNodes)) 0 ''12'' = Some 1
   \<and> n_id (nodeObjs (snd (addNodes (snd (Graph_new emptyHeap None)) 0 threeNodes)) 1) = ''12''
   \<and> getNodeById (snd (addNodes (snd (Graph_new emptyHeap None)) 0 threeNodes)) 0 (normalizeId None (Some 12)) \<noteq> None
   \<and> addNode (snd (addNodes (snd (Graph_new emptyHeap None)) 0 threeNodes)) 0 None (Some 12)
        = (None, snd (addNodes (snd (Graph_new emptyHeap None)) 0 threeNodes))"
  using addNode_getNodeById [of threeNodes "snd (Graph_new emptyHeap None)" 0
      "fst (addNodes (snd (Graph_new emptyHeap None)) 0 threeNodes)"
      "snd (addNodes (snd (Graph_new emptyHeap None)) 0 threeNodes)" None "Some 12"]
  by (simp add: threeNodes_def eval_defs)

text \<open>
  An id taken from a large \<^verbatim>\<open>dataIndex\<close> is the rounded numeral: after \<^verbatim>\<open>addNode(null, 2**60)\<close> the
  id \<^verbatim>\<open>1152921504606847000\<close> is taken, and \<^verbatim>\<open>addNode('1152921504606847000')\<close> returns nothing.
\<close>

lemma addNode_large_index:
  "fst (addNodes (snd (Graph_new emptyHeap None)) 0
          [(None, Some 1152921504606846976), (Some ''1152921504606847000'', None)]) = [Some 0, None]"
  by (simp add: eval_defs numToString_2_60)

section \<open>Duplicate edges of an undirected graph\<close>

lemmas eval_defs2 = eval_defs addEdge_def resolveNode_def jsIndex_def edgeKey_def GraphEdge_new_def
  getEdge_def endId_def

text \<open>
  C2. In the undirected graph with the nodes A and B, \<^verbatim>\<open>addEdge('A', 'B')\<close> succeeds and a
  second \<^verbatim>\<open>addEdge('A', 'B')\<close> adds nothing, but \<^verbatim>\<open>addEdge('B', 'A')\<close> is not a no-op: the
  guard of \<^verbatim>\<open>addEdge\<close> looks only under the key \<^verbatim>\<open>B-A\<close>, so a second edge is created and
  \<^verbatim>\<open>edges\<close> has two elements for the one unordered pair, although \<^verbatim>\<open>getEdge('B', 'A')\<close>
  already finds the first edge.
\<close>

theorem addEdge_undirected_reversed:
  "\<not> g_directed (graphObjs exU 0)
   \<and> g_nodes (graphObjs exU 0) = [0, 1]
   \<and> fst (addEdge exU 0 (NodeId ''A'') (NodeId ''B'') None) = Some 0
   \<and> fst (addEdge exU_AB 0 (NodeId ''A'') (NodeId ''B'') None) = None
   \<and> getEdge exU_AB 0 (AnId ''B'') (AnId ''A'') = Some 0
   \<and> fst (addEdge exU_AB 0 (NodeId ''B'') (NodeId ''A'') None) = Some 1
   \<and> g_edges (graphObjs (snd (addEdge exU_AB 0 (NodeId ''B'') (NodeId ''A'') None)) 0) = [0, 1]"
  by (simp add: exU_AB_def exU_def eval_defs2)

section \<open>The start node of a traversal\<close>

lemmas bfs_eval = breadthFirstTraverse_def resolveStart_def logged_def getNodeObj_def getEdgeObj_def edgeType_def
  callsOf_def neverStop_def

text \<open>
  C3. In the undirected graph with the nodes A and B and the edge A-B, a traversal from A
  along \<^verbatim>\<open>edges\<close> whose callback never stops invokes the callback on A, on B (from A) and
  on A again (from B): the start node is put in the queue without being marked visited, so
  the edge that leads back to it visits it a second time.
\<close>

theorem bfs_start_twice:
  "callsOf (breadthFirstTraverse (logged neverStop) ((), []) exU_AB 0 (AnId ''A'') DirNone)
     = Some [(0, None, False), (1, Some 0, False), (0, Some 1, False)]"
  by (simp add: exU_AB_def exU_def eval_defs2 bfs_eval)

section \<open>The effect of \<^verbatim>\<open>addNode\<close> and \<^verbatim>\<open>addEdge\<close> on the store\<close>

lemma addEdge_none:
  "resolveNode (graphObjs h g) a1 = None \<or> resolveNode (graphObjs h g) a2 = None \<Longrightarrow>
     addEdge h g a1 a2 di = (None, h)"
  by (auto simp: addEdge_def Let_def split: option.splits)

lemma addEdge_dup:
  "resolveNode (graphObjs h g) a1 = Some n1 \<Longrightarrow> resolveNode (graphObjs h g) a2 = Some n2 \<Longrightarrow>
   g_edgesMap (graphObjs h g) (edgeKey (n_id (nodeObjs h n1)) (n_id (nodeObjs h n2))) \<noteq> None \<Longrightarrow>
     addEdge h g a1 a2 di = (None, h)"
  by (simp add: addEdge_def Let_def)

lemma addEdge_fresh:
  assumes "resolveNode (graphObjs h g) a1 = Some n1" 
    and "resolveNode (graphObjs h g) a2 = Some n2"
    and "g_edgesMap (graphObjs h g) (edgeKey (n_id (nodeObjs h n1)) (n_id (nodeObjs h n2))) = None"
  shows "\<exists>h'. addEdge h g a1 a2 di = (Some (edgeLim h), h')
     \<and> graphLim h' = graphLim h \<and> nodeLim h' = nodeLim h \<and> edgeLim h' = Suc (edgeLim h)
     \<and> graphObjs h' = (graphObjs h)(g := (graphObjs h g)
           \<lparr>g_edges := g_edges (graphObjs h g) @ [edgeLim h],
            g_edgesMap := (g_edgesMap (graphObjs h g))
                            (edgeKey (n_id (nodeObjs h n1)) (n_id (nodeObjs h n2)) \<mapsto> edgeLim h)\<rparr>)
     \<and> (\<forall>r. nodeObjs h' r = (nodeObjs h r)
           \<lparr>n_inEdges := n_inEdges (nodeObjs h r) @ pushed (g_directed (graphObjs h g) \<and> r = n2) (edgeLim h),
            n_outEdges := n_outEdges (nodeObjs h r) @ pushed (g_directed (graphObjs h g) \<and> r = n1) (edgeLim h),
            n_edges := n_edges (nodeObjs h r) @ pushed (r = n1 \<or> r = n2) (edgeLim h)\<rparr>)
     \<and> edgeObjs h' = (edgeObjs h)(edgeLim h := (GraphEdge_new n1 n2 di)\<lparr>e_hostGraph := Some g\<rparr>)"
  using assms
  by (auto simp: addEdge_def Let_def allocEdge_def updEdge_def updGraph_def updNode_def pushed_def)


lemma addNode_effect:
  assumes "g_nodesMap (graphObjs h g) (generateNodeKey (normalizeId ident di)) = None"
  shows "\<exists>h'. addNode h g ident di = (Some (nodeLim h), h')
     \<and> graphLim h' = graphLim h \<and> nodeLim h' = Suc (nodeLim h) \<and> edgeLim h' = edgeLim h
     \<and> graphObjs h' = (graphObjs h)(g := (graphObjs h g)
           \<lparr>g_nodes := g_nodes (graphObjs h g) @ [nodeLim h],
            g_nodesMap := (g_nodesMap (graphObjs h g))
                            (generateNodeKey (normalizeId ident di) \<mapsto> nodeLim h)\<rparr>)
     \<and> nodeObjs h' = (nodeObjs h)(nodeLim h :=
           (GraphNode_new (Some (normalizeId ident di)) di)\<lparr>n_hostGraph := Some g\<rparr>)
     \<and> edgeObjs h' = edgeObjs h"
  using assms by (simp add: addNode_def Let_def heap_defs)

lemma heap_ok_Graph_new: "heap_ok h \<Longrightarrow> heap_ok (snd (Graph_new h d))"
  by (auto simp: heap_ok_def graph_ok_def Graph_new_def allocGraph_def edgeKeyOf_def less_Suc_eq)

lemma heap_ok_addNode:
  assumes ok: "heap_ok h" and g: "g < graphLim h"
  shows "heap_ok (snd (addNode h g ident di))"
proof (cases "g_nodesMap (graphObjs h g) (generateNodeKey (normalizeId ident di))")
  case (Some a)
  then show ?thesis using ok by (simp add: addNode_def Let_def)
next
  case None
  from addNode_effect [OF None] obtain h' where
    r: "addNode h g ident di = (Some (nodeLim h), h')"
    and lims: "graphLim h' = graphLim h" "nodeLim h' = Suc (nodeLim h)" "edgeLim h' = edgeLim h"
    and G: "graphObjs h' = (graphObjs h)(g := (graphObjs h g)
           \<lparr>g_nodes := g_nodes (graphObjs h g) @ [nodeLim h],
            g_nodesMap := (g_nodesMap (graphObjs h g))
                            (generateNodeKey (normalizeId ident di) \<mapsto> nodeLim h)\<rparr>)"
    and N: "nodeObjs h' = (nodeObjs h)(nodeLim h :=
           (GraphNode_new (Some (normalizeId ident di)) di)\<lparr>n_hostGraph := Some g\<rparr>)"
    and E: "edgeObjs h' = edgeObjs h" by blast
  have keys: "\<And>g0 e. g0 < graphLim h \<Longrightarrow> e \<in> set (g_edges (graphObjs h g0)) \<Longrightarrow> edgeKeyOf h' e = edgeKeyOf h e"
    using ok by (fastforce simp: heap_ok_def graph_ok_def edgeKeyOf_def N E)
  have "graph_ok h' g0" if g0: "g0 < graphLim h" for g0
  proof (cases "g0 = g")
    case True
    have old: "graph_ok h g" using ok g by (simp add: heap_ok_def)
    show ?thesis unfolding True
      using old None keys [OF g]
      apply (simp add: graph_ok_def lims G N E GraphNode_new_def)
      apply (intro conjI)
      apply (auto)
      done
  next
    case False
    have old: "graph_ok h g0" using ok g0 by (simp add: heap_ok_def)
    show ?thesis using old False keys [OF g0]
      by (auto simp add: graph_ok_def lims G N E)
  qed
  moreover have "\<forall>n<nodeLim h'. \<forall>e\<in>set (n_edges (nodeObjs h' n)) \<union> set (n_inEdges (nodeObjs h' n))
                          \<union> set (n_outEdges (nodeObjs h' n)). e < edgeLim h'"
    using ok by (auto simp: heap_ok_def lims N GraphNode_new_def less_Suc_eq)
  moreover have "\<forall>e<edgeLim h'. e_node1 (edgeObjs h' e) < nodeLim h' \<and> e_node2 (edgeObjs h' e) < nodeLim h'"
    using ok by (auto simp: heap_ok_def lims E less_Suc_eq)
  ultimately show ?thesis using r by (simp add: heap_ok_def lims)
qed


lemma resolveNode_own:
  assumes "graph_ok h g" and "ownArg h g a" and "resolveNode (graphObjs h g) a = Some n"
  shows "n \<in> set (g_nodes (graphObjs h g))"
  using assms
  by (cases a) (auto simp: graph_ok_def ownArg_def resolveNode_def jsIndex_def split: option.splits if_splits)

lemma n_id_pushed [simp]:
  "n_id (N\<lparr>n_inEdges := a, n_outEdges := b, n_edges := c\<rparr>) = n_id N"
  "n_hostGraph (N\<lparr>n_inEdges := a, n_outEdges := b, n_edges := c\<rparr>) = n_hostGraph N"
  by simp_all

lemma graph_okI:
  assumes "distinct (g_nodes (graphObjs h g))" and "distinct (g_edges (graphObjs h g))"
    and "\<And>n. n \<in> set (g_nodes (graphObjs h g)) \<Longrightarrow>
          n < nodeLim h \<and> n_hostGraph (nodeObjs h n) = Some g
        \<and> g_nodesMap (graphObjs h g) (generateNodeKey (n_id (nodeObjs h n))) = Some n"
    and "\<And>e. e \<in> set (g_edges (graphObjs h g)) \<Longrightarrow>
          e < edgeLim h
        \<and> e_node1 (edgeObjs h e) \<in> set (g_nodes (graphObjs h g))
        \<and> e_node2 (edgeObjs h e) \<in> set (g_nodes (graphObjs h g))
        \<and> g_edgesMap (graphObjs h g) (edgeKeyOf h e) = Some e"
    and "\<And>k n. g_nodesMap (graphObjs h g) k = Some n \<Longrightarrow>
          n \<in> set (g_nodes (graphObjs h g)) \<and> k = generateNodeKey (n_id (nodeObjs h n))"
    and "\<And>k e. g_edgesMap (graphObjs h g) k = Some e \<Longrightarrow>
          e \<in> set (g_edges (graphObjs h g)) \<and> k = edgeKeyOf h e"
  shows "graph_ok h g"
  unfolding graph_ok_def using assms by blast

lemma graph_okD:
  assumes "graph_ok h g"
  shows "distinct (g_nodes (graphObjs h g))" and "distinct (g_edges (graphObjs h g))"
    and "\<And>n. n \<in> set (g_nodes (graphObjs h g)) \<Longrightarrow> n < nodeLim h"
    and "\<And>n. n \<in> set (g_nodes (graphObjs h g)) \<Longrightarrow> n_hostGraph (nodeObjs h n) = Some g"
    and "\<And>n. n \<in> set (g_nodes (graphObjs h g)) \<Longrightarrow>
           g_nodesMap (graphObjs h g) (generateNodeKey (n_id (nodeObjs h n))) = Some n"
    and "\<And>e. e \<in> set (g_edges (graphObjs h g)) \<Longrightarrow> e < edgeLim h"
    and "\<And>e. e \<in> set (g_edges (graphObjs h g)) \<Longrightarrow> e_node1 (edgeObjs h e) \<in> set (g_nodes (graphObjs h g))"
    and "\<And>e. e \<in> set (g_edges (graphObjs h g)) \<Longrightarrow> e_node2 (edgeObjs h e) \<in> set (g_nodes (graphObjs h g))"
    and "\<And>e. e \<in> set (g_edges (graphObjs h g)) \<Longrightarrow> g_edgesMap (graphObjs h g) (edgeKeyOf h e) = Some e"
    and "\<And>k n. g_nodesMap (graphObjs h g) k = Some n \<Longrightarrow> n \<in> set (g_nodes (graphObjs h g))"
    and "\<And>k n. g_nodesMap (graphObjs h g) k = Some n \<Longrightarrow> k = generateNodeKey (n_id (nodeObjs h n))"
    and "\<And>k e. g_edgesMap (graphObjs h g) k = Some e \<Longrightarrow> e \<in> set (g_edges (graphObjs h g))"
    and "\<And>k e. g_edgesMap (graphObjs h g) k = Some e \<Longrightarrow> k = edgeKeyOf h e"
  using assms unfolding graph_ok_def by blast+

lemma heap_ok_addEdge:
  assumes ok: "heap_ok h" and g: "g < graphLim h"
    and own: "ownArg h g a1" "ownArg h g a2"
  shows "heap_ok (snd (addEdge h g a1 a2 di))"
proof -
  have old: "graph_ok h g" using ok g by (simp add: heap_ok_def)
  consider (none) "resolveNode (graphObjs h g) a1 = None \<or> resolveNode (graphObjs h g) a2 = None"
    | (dup) n1 n2 where "resolveNode (graphObjs h g) a1 = Some n1" "resolveNode (graphObjs h g) a2 = Some n2"
        "g_edgesMap (graphObjs h g) (edgeKey (n_id (nodeObjs h n1)) (n_id (nodeObjs h n2))) \<noteq> None"
    | (fresh) n1 n2 where "resolveNode (graphObjs h g) a1 = Some n1" "resolveNode (graphObjs h g) a2 = Some n2"
        "g_edgesMap (graphObjs h g) (edgeKey (n_id (nodeObjs h n1)) (n_id (nodeObjs h n2))) = None"
    by (metis not_Some_eq)
  then show ?thesis
  proof cases
    case none
    then show ?thesis using ok by (simp add: addEdge_none)
  next
    case dup
    then show ?thesis using ok by (simp add: addEdge_dup)
  next
    case fresh
    let ?key = "edgeKey (n_id (nodeObjs h n1)) (n_id (nodeObjs h n2))"
    let ?G = "graphObjs h g"
    from addEdge_fresh [OF fresh, of di] obtain h' where
      r: "addEdge h g a1 a2 di = (Some (edgeLim h), h')"
      and lims: "graphLim h' = graphLim h" "nodeLim h' = nodeLim h" "edgeLim h' = Suc (edgeLim h)"
      and G: "graphObjs h' = (graphObjs h)(g := ?G
           \<lparr>g_edges := g_edges ?G @ [edgeLim h],
            g_edgesMap := (g_edgesMap ?G)(?key \<mapsto> edgeLim h)\<rparr>)"
      and N: "\<And>r. nodeObjs h' r = (nodeObjs h r)
           \<lparr>n_inEdges := n_inEdges (nodeObjs h r) @ pushed (g_directed ?G \<and> r = n2) (edgeLim h),
            n_outEdges := n_outEdges (nodeObjs h r) @ pushed (g_directed ?G \<and> r = n1) (edgeLim h),
            n_edges := n_edges (nodeObjs h r) @ pushed (r = n1 \<or> r = n2) (edgeLim h)\<rparr>"
      and E: "edgeObjs h' = (edgeObjs h)(edgeLim h := (GraphEdge_new n1 n2 di)\<lparr>e_hostGraph := Some g\<rparr>)"
      by blast
    have n1: "n1 \<in> set (g_nodes ?G)" and n2: "n2 \<in> set (g_nodes ?G)"
      using resolveNode_own [OF old] own fresh by blast+
    have ids: "\<And>r. n_id (nodeObjs h' r) = n_id (nodeObjs h r)"
      and hosts: "\<And>r. n_hostGraph (nodeObjs h' r) = n_hostGraph (nodeObjs h r)"
      by (simp_all add: N)
    have keys: "\<And>e. e < edgeLim h \<Longrightarrow> edgeKeyOf h' e = edgeKeyOf h e"
      by (simp add: edgeKeyOf_def ids E)
    have newkey: "edgeKeyOf h' (edgeLim h) = ?key"
      by (simp add: edgeKeyOf_def ids E GraphEdge_new_def)
    have Eold: "\<And>e. e < edgeLim h \<Longrightarrow> edgeObjs h' e = edgeObjs h e" by (simp add: E)
    have Enew: "e_node1 (edgeObjs h' (edgeLim h)) = n1" "e_node2 (edgeObjs h' (edgeLim h)) = n2"
      by (simp_all add: E GraphEdge_new_def)
    have "graph_ok h' g0" if g0: "g0 < graphLim h" for g0
    proof (cases "g0 = g")
      case True
      note D = graph_okD [OF old]
      have Gn: "g_nodes (graphObjs h' g) = g_nodes ?G"
        and Gm: "g_nodesMap (graphObjs h' g) = g_nodesMap ?G"
        and Ge: "g_edges (graphObjs h' g) = g_edges ?G @ [edgeLim h]"
        and Gk: "g_edgesMap (graphObjs h' g) = (g_edgesMap ?G)(?key \<mapsto> edgeLim h)"
        by (simp_all add: G)
      have notin: "edgeLim h \<notin> set (g_edges ?G)" using D(6) by blast
      have "graph_ok h' g"
      proof (rule graph_okI)
        show "distinct (g_nodes (graphObjs h' g))" using D(1) by (simp add: Gn)
        show "distinct (g_edges (graphObjs h' g))" using D(2) notin by (simp add: Ge)
      next
        fix n assume "n \<in> set (g_nodes (graphObjs h' g))"
        then have "n \<in> set (g_nodes ?G)" by (simp add: Gn)
        then show "n < nodeLim h' \<and> n_hostGraph (nodeObjs h' n) = Some g
          \<and> g_nodesMap (graphObjs h' g) (generateNodeKey (n_id (nodeObjs h' n))) = Some n"
          using D(3,4,5) by (simp add: lims ids hosts Gm)
      next
        fix e assume "e \<in> set (g_edges (graphObjs h' g))"
        then consider "e \<in> set (g_edges ?G)" | "e = edgeLim h" by (auto simp: Ge)
        then show "e < edgeLim h' \<and> e_node1 (edgeObjs h' e) \<in> set (g_nodes (graphObjs h' g))
          \<and> e_node2 (edgeObjs h' e) \<in> set (g_nodes (graphObjs h' g))
          \<and> g_edgesMap (graphObjs h' g) (edgeKeyOf h' e) = Some e"
        proof cases
          case 1
          then have lt: "e < edgeLim h" by (rule D(6))
          have "edgeKeyOf h e \<noteq> ?key" using D(9) [OF 1] fresh(3) by auto
          then show ?thesis using 1 lt D(7,8,9) by (simp add: lims Gn Gk keys Eold)
        next
          case 2
          then show ?thesis using n1 n2 by (simp add: lims Gn Gk newkey Enew)
        qed
      next
        fix k n assume "g_nodesMap (graphObjs h' g) k = Some n"
        then show "n \<in> set (g_nodes (graphObjs h' g)) \<and> k = generateNodeKey (n_id (nodeObjs h' n))"
          using D(10,11) by (simp add: Gm Gn ids)
      next
        fix k e assume a: "g_edgesMap (graphObjs h' g) k = Some e"
        show "e \<in> set (g_edges (graphObjs h' g)) \<and> k = edgeKeyOf h' e"
        proof (cases "k = ?key")
          case True
          then have "e = edgeLim h" using a by (simp add: Gk)
          then show ?thesis using True by (simp add: Ge newkey)
        next
          case False
          then have m: "g_edgesMap ?G k = Some e" using a by (simp add: Gk)
          then have "e \<in> set (g_edges ?G)" "k = edgeKeyOf h e" using D(12,13) by blast+
          then show ?thesis using D(6) by (simp add: Ge keys)
        qed
      qed
      then show ?thesis by (simp add: True)
    next
      case False
      have old0: "graph_ok h g0" using ok g0 by (simp add: heap_ok_def)
      note D = graph_okD [OF old0]
      have G0: "graphObjs h' g0 = graphObjs h g0" using False by (simp add: G)
      show ?thesis
      proof (rule graph_okI)
        show "distinct (g_nodes (graphObjs h' g0))" "distinct (g_edges (graphObjs h' g0))"
          using D(1,2) by (simp_all add: G0)
      next
        fix n assume "n \<in> set (g_nodes (graphObjs h' g0))"
        then show "n < nodeLim h' \<and> n_hostGraph (nodeObjs h' n) = Some g0
          \<and> g_nodesMap (graphObjs h' g0) (generateNodeKey (n_id (nodeObjs h' n))) = Some n"
          using D(3,4,5) by (simp add: lims ids hosts G0)
      next
        fix e assume "e \<in> set (g_edges (graphObjs h' g0))"
        then have e: "e \<in> set (g_edges (graphObjs h g0))" by (simp add: G0)
        then have "e < edgeLim h" by (rule D(6))
        then show "e < edgeLim h' \<and> e_node1 (edgeObjs h' e) \<in> set (g_nodes (graphObjs h' g0))
          \<and> e_node2 (edgeObjs h' e) \<in> set (g_nodes (graphObjs h' g0))
          \<and> g_edgesMap (graphObjs h' g0) (edgeKeyOf h' e) = Some e"
          using e D(7,8,9) by (simp add: lims G0 keys Eold)
      next
        fix k n assume "g_nodesMap (graphObjs h' g0) k = Some n"
        then show "n \<in> set (g_nodes (graphObjs h' g0)) \<and> k = generateNodeKey (n_id (nodeObjs h' n))"
          using D(10,11) by (simp add: G0 ids)
      next
        fix k e assume "g_edgesMap (graphObjs h' g0) k = Some e"
        then have m: "g_edgesMap (graphObjs h g0) k = Some e" by (simp add: G0)
        then have "e \<in> set (g_edges (graphObjs h g0))" "k = edgeKeyOf h e" using D(12,13) by blast+
        then show "e \<in> set (g_edges (graphObjs h' g0)) \<and> k = edgeKeyOf h' e"
          using D(6) by (simp add: G0 keys)
      qed
    qed
    moreover have "\<forall>n<nodeLim h'. \<forall>e\<in>set (n_edges (nodeObjs h' n)) \<union> set (n_inEdges (nodeObjs h' n))
                          \<union> set (n_outEdges (nodeObjs h' n)). e < edgeLim h'"
      using ok by (auto simp: heap_ok_def lims N pushed_def less_Suc_eq)
    moreover have "\<forall>e<edgeLim h'. e_node1 (edgeObjs h' e) < nodeLim h' \<and> e_node2 (edgeObjs h' e) < nodeLim h'"
      using ok graph_okD(3) [OF old] n1 n2 by (auto simp: heap_ok_def lims E less_Suc_eq GraphEdge_new_def)
    ultimately show ?thesis using r by (simp add: heap_ok_def lims)
  qed
qed

section \<open>Self-loops\<close>

lemma heap_ok_empty: "heap_ok emptyHeap"
  by (simp add: heap_ok_def emptyHeap_def)

lemma graphLim_addNode: "graphLim (snd (addNode h g ident di)) = graphLim h"
  by (simp add: addNode_def Let_def heap_defs)

lemma graphLim_addEdge: "graphLim (snd (addEdge h g a1 a2 di)) = graphLim h"
  by (simp add: addEdge_def Let_def heap_defs split: option.splits)

lemma graphLim_Graph_new: "graphLim (snd (Graph_new h d)) = Suc (graphLim h)" "fst (Graph_new h d) = graphLim h"
  by (simp_all add: Graph_new_def heap_defs)

lemma heap_ok_exU: "heap_ok exU"
  unfolding exU_def
  by (intro heap_ok_addNode heap_ok_Graph_new heap_ok_empty)
     (simp_all add: graphLim_addNode graphLim_Graph_new emptyHeap_def)

lemma addEdge_Some:
  assumes "addEdge h g a1 a2 di = (Some e, h')"
  obtains n1 n2 where "resolveNode (graphObjs h g) a1 = Some n1" "resolveNode (graphObjs h g) a2 = Some n2"
        "g_edgesMap (graphObjs h g) (edgeKey (n_id (nodeObjs h n1)) (n_id (nodeObjs h n2))) = None"
  using assms by (auto simp: addEdge_def Let_def split: option.splits if_splits)

text \<open>
  C9. In a well-formed store, for every node \<open>n\<close> of the graph (given by reference, by
  position or by id), an \<^verbatim>\<open>addEdge(n, n)\<close> that returns an edge has created an edge of the
  graph whose two endpoints are \<open>n\<close> and which occurs exactly once in \<^verbatim>\<open>n.edges\<close>.
\<close>

theorem selfLoop_once:
  assumes ok: "heap_ok h" and g: "g < graphLim h"
    and n: "n \<in> set (g_nodes (graphObjs h g))"
    and a: "resolveNode (graphObjs h g) a = Some n"
    and add: "addEdge h g a a dataIndex = (Some e, h')"
  shows "e_node1 (edgeObjs h' e) = n \<and> e_node2 (edgeObjs h' e) = n
       \<and> e \<in> set (g_edges (graphObjs h' g))
       \<and> count_list (n_edges (nodeObjs h' n)) e = 1"
proof -
  from add obtain n1 n2 where res: "resolveNode (graphObjs h g) a = Some n1" "resolveNode (graphObjs h g) a = Some n2"
        "g_edgesMap (graphObjs h g) (edgeKey (n_id (nodeObjs h n1)) (n_id (nodeObjs h n2))) = None"
    by (rule addEdge_Some)
  with a have [simp]: "n1 = n" "n2 = n" by simp_all
  from addEdge_fresh [OF res, of dataIndex] add
  have e: "e = edgeLim h"
    and G: "graphObjs h' = (graphObjs h)(g := (graphObjs h g)
           \<lparr>g_edges := g_edges (graphObjs h g) @ [edgeLim h],
            g_edgesMap := (g_edgesMap (graphObjs h g))
                            (edgeKey (n_id (nodeObjs h n)) (n_id (nodeObjs h n)) \<mapsto> edgeLim h)\<rparr>)"
    and N: "n_edges (nodeObjs h' n) = n_edges (nodeObjs h n) @ [edgeLim h]"
    and E: "edgeObjs h' = (edgeObjs h)(edgeLim h := (GraphEdge_new n n dataIndex)\<lparr>e_hostGraph := Some g\<rparr>)"
    by (auto simp: pushed_def)
  have "n < nodeLim h" using ok g n by (simp add: heap_ok_def graph_ok_def)
  then have "\<forall>x\<in>set (n_edges (nodeObjs h n)). x < edgeLim h" using ok by (simp add: heap_ok_def)
  then have "edgeLim h \<notin> set (n_edges (nodeObjs h n))" by auto
  then have "count_list (n_edges (nodeObjs h n)) (edgeLim h) = 0" by (simp add: count_list_0_iff)
  then show ?thesis by (simp add: e G N E GraphEdge_new_def)
qed

theorem selfLoop_once_witness:
  "heap_ok exU \<and> 0 < graphLim exU \<and> 0 \<in> set (g_nodes (graphObjs exU 0))
   \<and> resolveNode (graphObjs exU 0) (NodeRef 0) = Some 0
   \<and> fst (addEdge exU 0 (NodeRef 0) (NodeRef 0) None) = Some 0
   \<and> n_edges (nodeObjs (snd (addEdge exU 0 (NodeRef 0) (NodeRef 0) None)) 0) = [0]
   \<and> count_list (n_edges (nodeObjs (snd (addEdge exU 0 (NodeRef 0) (NodeRef 0) None)) 0)) 0 = 1"
  using selfLoop_once [of exU 0 0 "NodeRef 0" None 0 "snd (addEdge exU 0 (NodeRef 0) (NodeRef 0) None)"]
    heap_ok_exU
  by (simp add: exU_def eval_defs2)

section \<open>Synchronization with the record tables\<close>

lemma fold_updNode_frame:
  "graphObjs (fold (\<lambda>n. updNode n f) ns h) = graphObjs h"
  "edgeObjs (fold (\<lambda>n. updNode n f) ns h) = edgeObjs h"
  "graphLim (fold (\<lambda>n. updNode n f) ns h) = graphLim h"
  "nodeLim (fold (\<lambda>n. updNode n f) ns h) = nodeLim h"
  "edgeLim (fold (\<lambda>n. updNode n f) ns h) = edgeLim h"
  by (induction ns arbitrary: h; simp add: updNode_def)+

lemma fold_updEdge_frame:
  "graphObjs (fold (\<lambda>e. updEdge e f) es h) = graphObjs h"
  "nodeObjs (fold (\<lambda>e. updEdge e f) es h) = nodeObjs h"
  "graphLim (fold (\<lambda>e. updEdge e f) es h) = graphLim h"
  "nodeLim (fold (\<lambda>e. updEdge e f) es h) = nodeLim h"
  "edgeLim (fold (\<lambda>e. updEdge e f) es h) = edgeLim h"
  by (induction es arbitrary: h; simp add: updEdge_def)+

lemma fold_reset_edges:
  "e_node1 (edgeObjs (fold (\<lambda>e. updEdge e (\<lambda>E. E\<lparr>e_dataIndex := v\<rparr>)) es h) x) = e_node1 (edgeObjs h x)"
  "e_node2 (edgeObjs (fold (\<lambda>e. updEdge e (\<lambda>E. E\<lparr>e_dataIndex := v\<rparr>)) es h) x) = e_node2 (edgeObjs h x)"
  "e_hostGraph (edgeObjs (fold (\<lambda>e. updEdge e (\<lambda>E. E\<lparr>e_dataIndex := v\<rparr>)) es h) x) = e_hostGraph (edgeObjs h x)"
  "e_dataIndex (edgeObjs (fold (\<lambda>e. updEdge e (\<lambda>E. E\<lparr>e_dataIndex := v\<rparr>)) es h) x)
     = (if x \<in> set es then v else e_dataIndex (edgeObjs h x))"
  by (induction es arbitrary: h; simp add: updEdge_def)+

lemma setEdgeIndices_frame:
  assumes "setEdgeIndices edges L ps h = Inr h'"
  shows "graphObjs h' = graphObjs h \<and> nodeObjs h' = nodeObjs h
       \<and> graphLim h' = graphLim h \<and> nodeLim h' = nodeLim h \<and> edgeLim h' = edgeLim h
       \<and> (\<forall>x. e_node1 (edgeObjs h' x) = e_node1 (edgeObjs h x)
              \<and> e_node2 (edgeObjs h' x) = e_node2 (edgeObjs h x)
              \<and> e_hostGraph (edgeObjs h' x) = e_hostGraph (edgeObjs h x)
              \<and> (e_dataIndex (edgeObjs h' x) = e_dataIndex (edgeObjs h x)
                  \<or> (\<exists>i\<in>set ps. jsIndex edges (List_getRawIndex L (int i)) = Some x)))"
  using assms
proof (induction ps arbitrary: h)
  case Nil
  then show ?case by simp
next
  case (Cons i ps)
  then obtain e where e: "jsIndex edges (List_getRawIndex L (int i)) = Some e"
    and rest: "setEdgeIndices edges L ps (updEdge e (\<lambda>E. E\<lparr>e_dataIndex := int i\<rparr>) h) = Inr h'"
    by (auto split: option.splits)
  from Cons.IH [OF rest] e show ?case
    by (auto simp: updEdge_def split: if_splits)
qed

lemma filterRows_kept:
  assumes "filterRows cb L ps = Inr raws"
  shows "\<forall>raw\<in>set raws. \<exists>i\<in>set ps. cb (int i) = Inr True \<and> raw = List_getRawIndex L (int i)"
  using assms
proof (induction ps arbitrary: raws)
  case Nil
  then show ?case by simp
next
  case (Cons i ps)
  then obtain keep rest where k: "cb (int i) = Inr keep" and r: "filterRows cb L ps = Inr rest"
    and raws: "raws = (if keep then List_getRawIndex L (int i) # rest else rest)"
    by (auto split: sum.splits)
  from Cons.IH [OF r] k raws show ?case by (auto split: if_splits)
qed

lemma setNodeIndices_frame:
  assumes "setNodeIndices nodes L ps h = Inr h'"
  shows "graphObjs h' = graphObjs h \<and> edgeObjs h' = edgeObjs h
       \<and> graphLim h' = graphLim h \<and> nodeLim h' = nodeLim h \<and> edgeLim h' = edgeLim h"
  using assms
proof (induction ps arbitrary: h)
  case Nil
  then show ?case by simp
next
  case (Cons i ps)
  then obtain n where "setNodeIndices nodes L ps (updNode n (\<lambda>N. N\<lparr>n_dataIndex := int i\<rparr>) h) = Inr h'"
    by (auto split: option.splits)
  from Cons.IH [OF this] show ?case by (simp add: updNode_def)
qed

lemma getRawIndex_filtered:
  "i < length raws \<Longrightarrow> List_getRawIndex (L\<lparr>indices := raws\<rparr>) (int i) = raws ! i"
  by (simp add: List_getRawIndex_def jsIndex_def)

lemma update_Inr:
  assumes "update h g = Inr h'"
  obtains data edgeData h1 h2 raws h4 where
    "g_data (graphObjs h g) = Some data" "g_edgeData (graphObjs h g) = Some edgeData"
    "h1 = fold (\<lambda>n. updNode n (\<lambda>N. N\<lparr>n_dataIndex := -1\<rparr>)) (g_nodes (graphObjs h g)) h"
    "setNodeIndices (g_nodes (graphObjs h g)) data [0..<List_count data] h1 = Inr h2"
    "filterRows (bothEndsLive h2 (g_edges (graphObjs h g)) edgeData) edgeData [0..<List_count edgeData] = Inr raws"
    "h4 = fold (\<lambda>e. updEdge e (\<lambda>E. E\<lparr>e_dataIndex := -1\<rparr>)) (g_edges (graphObjs h g))
            (updGraph g (\<lambda>G. G\<lparr>g_edgeData := Some (edgeData\<lparr>indices := raws\<rparr>)\<rparr>) h2)"
    "setEdgeIndices (g_edges (graphObjs h g)) (edgeData\<lparr>indices := raws\<rparr>) [0..<length raws] h4 = Inr h'"
  using assms
  by (auto simp: update_def Let_def List_filterSelf_def List_count_def split: option.splits sum.splits)

lemma update_live_edges:
  assumes "update h g = Inr h'"
  shows "g_edges (graphObjs h' g) = g_edges (graphObjs h g)"
    and "\<And>e. e \<in> set (g_edges (graphObjs h g)) \<Longrightarrow> 0 \<le> e_dataIndex (edgeObjs h' e) \<Longrightarrow>
            0 \<le> n_dataIndex (nodeObjs h' (e_node1 (edgeObjs h' e)))
          \<and> 0 \<le> n_dataIndex (nodeObjs h' (e_node2 (edgeObjs h' e)))"
proof -
  from assms obtain data edgeData h1 h2 raws h4 where
    h1: "h1 = fold (\<lambda>n. updNode n (\<lambda>N. N\<lparr>n_dataIndex := -1\<rparr>)) (g_nodes (graphObjs h g)) h"
    and h2: "setNodeIndices (g_nodes (graphObjs h g)) data [0..<List_count data] h1 = Inr h2"
    and fr: "filterRows (bothEndsLive h2 (g_edges (graphObjs h g)) edgeData) edgeData [0..<List_count edgeData] = Inr raws"
    and h4: "h4 = fold (\<lambda>e. updEdge e (\<lambda>E. E\<lparr>e_dataIndex := -1\<rparr>)) (g_edges (graphObjs h g))
            (updGraph g (\<lambda>G. G\<lparr>g_edgeData := Some (edgeData\<lparr>indices := raws\<rparr>)\<rparr>) h2)"
    and h': "setEdgeIndices (g_edges (graphObjs h g)) (edgeData\<lparr>indices := raws\<rparr>) [0..<length raws] h4 = Inr h'"
    by (rule update_Inr)
  let ?edges = "g_edges (graphObjs h g)"
  note f2 = setNodeIndices_frame [OF h2]
  note f' = setEdgeIndices_frame [OF h']
  have G2: "graphObjs h2 = graphObjs h" using f2 by (simp add: h1 fold_updNode_frame)
  have E2: "edgeObjs h2 = edgeObjs h" using f2 by (simp add: h1 fold_updNode_frame)
  have N4: "nodeObjs h4 = nodeObjs h2" by (simp add: h4 fold_updEdge_frame updGraph_def)
  have N': "nodeObjs h' = nodeObjs h2" using f' N4 by simp
  show "g_edges (graphObjs h' g) = g_edges (graphObjs h g)"
    using f' by (simp add: h4 fold_updEdge_frame updGraph_def G2)
  fix e assume e: "e \<in> set ?edges" and live: "0 \<le> e_dataIndex (edgeObjs h' e)"
  have ends: "e_node1 (edgeObjs h' e) = e_node1 (edgeObjs h2 e)" "e_node2 (edgeObjs h' e) = e_node2 (edgeObjs h2 e)"
    using f' by (simp_all add: h4 fold_reset_edges updGraph_def)
  have "e_dataIndex (edgeObjs h4 e) = -1" using e by (simp add: h4 fold_reset_edges)
  with live have "e_dataIndex (edgeObjs h' e) \<noteq> e_dataIndex (edgeObjs h4 e)" by simp
  with f' have "\<exists>i\<in>set [0..<length raws].
       jsIndex ?edges (List_getRawIndex (edgeData\<lparr>indices := raws\<rparr>) (int i)) = Some e"
    by blast
  then obtain j where j: "j < length raws"
    and je: "jsIndex ?edges (List_getRawIndex (edgeData\<lparr>indices := raws\<rparr>) (int j)) = Some e"
    by auto
  then have "jsIndex ?edges (raws ! j) = Some e" by (simp add: getRawIndex_filtered)
  moreover from filterRows_kept [OF fr] j obtain i where
    "bothEndsLive h2 ?edges edgeData (int i) = Inr True" "raws ! j = List_getRawIndex edgeData (int i)"
    by (metis nth_mem)
  ultimately have "0 \<le> n_dataIndex (nodeObjs h2 (e_node1 (edgeObjs h2 e)))
          \<and> 0 \<le> n_dataIndex (nodeObjs h2 (e_node2 (edgeObjs h2 e)))"
    by (auto simp: bothEndsLive_def split: option.splits)
  then show "0 \<le> n_dataIndex (nodeObjs h' (e_node1 (edgeObjs h' e)))
          \<and> 0 \<le> n_dataIndex (nodeObjs h' (e_node2 (edgeObjs h' e)))"
    by (simp add: N' ends)
qed

lemma setNodeIndices_succeeds:
  "\<forall>i\<in>set ps. jsIndex nodes (List_getRawIndex L (int i)) \<noteq> None \<Longrightarrow> \<exists>h'. setNodeIndices nodes L ps h = Inr h'"
  by (induction ps arbitrary: h) auto

lemma setEdgeIndices_succeeds:
  "\<forall>i\<in>set ps. jsIndex edges (List_getRawIndex L (int i)) \<noteq> None \<Longrightarrow> \<exists>h'. setEdgeIndices edges L ps h = Inr h'"
  by (induction ps arbitrary: h) auto

lemma filterRows_succeeds:
  "\<forall>i\<in>set ps. \<exists>b. cb (int i) = Inr b \<Longrightarrow> \<exists>raws. filterRows cb L ps = Inr raws"
  by (induction ps) auto

lemma getRawIndex_in_range:
  "i < length (indices L) \<Longrightarrow> List_getRawIndex L (int i) = indices L ! i"
  by (simp add: List_getRawIndex_def jsIndex_def)

lemma update_succeeds:
  assumes d: "g_data (graphObjs h g) = Some data" and ed: "g_edgeData (graphObjs h g) = Some edgeData"
    and rd: "\<forall>raw\<in>set (indices data). 0 \<le> raw \<and> raw < int (length (g_nodes (graphObjs h g)))"
    and re: "\<forall>raw\<in>set (indices edgeData). 0 \<le> raw \<and> raw < int (length (g_edges (graphObjs h g)))"
  shows "\<exists>h'. update h g = Inr h'"
proof -
  let ?nodes = "g_nodes (graphObjs h g)" and ?edges = "g_edges (graphObjs h g)"
  let ?h1 = "fold (\<lambda>n. updNode n (\<lambda>N. N\<lparr>n_dataIndex := -1\<rparr>)) ?nodes h"
  have "\<forall>i\<in>set [0..<List_count data]. jsIndex ?nodes (List_getRawIndex data (int i)) \<noteq> None"
    using rd by (auto simp: List_count_def getRawIndex_in_range jsIndex_def)
  from setNodeIndices_succeeds [OF this] obtain h2 where
    h2: "setNodeIndices ?nodes data [0..<List_count data] ?h1 = Inr h2" by blast
  have inr: "\<forall>i\<in>set [0..<List_count edgeData]. jsIndex ?edges (List_getRawIndex edgeData (int i)) \<noteq> None"
    using re by (auto simp: List_count_def getRawIndex_in_range jsIndex_def)
  then have "\<forall>i\<in>set [0..<List_count edgeData]. \<exists>b. bothEndsLive h2 ?edges edgeData (int i) = Inr b"
    by (auto simp: bothEndsLive_def split: option.splits)
  from filterRows_succeeds [OF this] obtain raws where
    fr: "filterRows (bothEndsLive h2 ?edges edgeData) edgeData [0..<List_count edgeData] = Inr raws" by blast
  have "\<forall>raw\<in>set raws. jsIndex ?edges raw \<noteq> None"
    using filterRows_kept [OF fr] inr by fastforce
  then have "\<forall>i\<in>set [0..<length raws]. jsIndex ?edges (List_getRawIndex (edgeData\<lparr>indices := raws\<rparr>) (int i)) \<noteq> None"
    by (simp add: getRawIndex_filtered)
  from setEdgeIndices_succeeds [OF this]
  show ?thesis using d ed h2 fr
    by (simp add: update_def Let_def List_filterSelf_def List_count_def)
qed


text \<open>
  C4. When \<^verbatim>\<open>update\<close> returns, every edge of the graph whose \<^verbatim>\<open>dataIndex\<close> is not negative has
  two endpoint nodes whose \<^verbatim>\<open>dataIndex\<close> is not negative. And \<^verbatim>\<open>update\<close> does return whenever
  both tables are bound and their live storage indices lie inside \<^verbatim>\<open>nodes\<close> and \<^verbatim>\<open>edges\<close>.
\<close>

theorem update_live_edges_have_live_ends:
  "(update h g = Inr h' \<longrightarrow>
      (\<forall>e\<in>set (g_edges (graphObjs h' g)).
          0 \<le> e_dataIndex (edgeObjs h' e) \<longrightarrow>
            0 \<le> n_dataIndex (nodeObjs h' (e_node1 (edgeObjs h' e)))
          \<and> 0 \<le> n_dataIndex (nodeObjs h' (e_node2 (edgeObjs h' e)))))
   \<and> (g_data (graphObjs h g) = Some data \<and> g_edgeData (graphObjs h g) = Some edgeData
       \<and> (\<forall>raw\<in>set (indices data). 0 \<le> raw \<and> raw < int (length (g_nodes (graphObjs h g))))
       \<and> (\<forall>raw\<in>set (indices edgeData). 0 \<le> raw \<and> raw < int (length (g_edges (graphObjs h g))))
      \<longrightarrow> (\<exists>h''. update h g = Inr h''))"
  using update_live_edges [of h g h'] update_succeeds [of h g data edgeData]
  by simp

lemmas update_eval = update_def List_filterSelf_def List_count_def List_getRawIndex_def bothEndsLive_def
  tableOf_def bindTables_def


lemma exD_nodes_simps:
  "graphLim exD_nodes = 1" "nodeLim exD_nodes = 3" "edgeLim exD_nodes = 0"
  "graphObjs exD_nodes 0 = \<lparr>g_nodes = [0, 1, 2], g_edges = [], g_data = None, g_edgeData = None,
      g_directed = True, g_nodesMap = [''_EC_A'' \<mapsto> 0, ''_EC_B'' \<mapsto> 1, ''_EC_C'' \<mapsto> 2],
      g_edgesMap = Map.empty\<rparr>"
  "nodeObjs exD_nodes 0 = \<lparr>n_id = ''A'', n_inEdges = [], n_outEdges = [], n_edges = [],
      n_hostGraph = Some 0, n_dataIndex = 0, n_visited = False\<rparr>"
  "nodeObjs exD_nodes (Suc 0) = \<lparr>n_id = ''B'', n_inEdges = [], n_outEdges = [], n_edges = [],
      n_hostGraph = Some 0, n_dataIndex = 1, n_visited = False\<rparr>"
  "nodeObjs exD_nodes (Suc (Suc 0)) = \<lparr>n_id = ''C'', n_inEdges = [], n_outEdges = [], n_edges = [],
      n_hostGraph = Some 0, n_dataIndex = 2, n_visited = False\<rparr>"
  by (simp_all add: exD_nodes_def eval_defs2 eval_nat_numeral)

lemma exD_edge_simps:
  "graphLim exD_edge = 1" "nodeLim exD_edge = 3" "edgeLim exD_edge = 1"
  "graphObjs exD_edge 0 = \<lparr>g_nodes = [0, 1, 2], g_edges = [0], g_data = None, g_edgeData = None,
      g_directed = True, g_nodesMap = [''_EC_A'' \<mapsto> 0, ''_EC_B'' \<mapsto> 1, ''_EC_C'' \<mapsto> 2],
      g_edgesMap = [''A-B'' \<mapsto> 0]\<rparr>"
  "nodeObjs exD_edge 0 = \<lparr>n_id = ''A'', n_inEdges = [], n_outEdges = [0], n_edges = [0],
      n_hostGraph = Some 0, n_dataIndex = 0, n_visited = False\<rparr>"
  "nodeObjs exD_edge (Suc 0) = \<lparr>n_id = ''B'', n_inEdges = [0], n_outEdges = [], n_edges = [0],
      n_hostGraph = Some 0, n_dataIndex = 1, n_visited = False\<rparr>"
  "nodeObjs exD_edge (Suc (Suc 0)) = \<lparr>n_id = ''C'', n_inEdges = [], n_outEdges = [], n_edges = [],
      n_hostGraph = Some 0, n_dataIndex = 2, n_visited = False\<rparr>"
  "edgeObjs exD_edge 0 = \<lparr>e_node1 = 0, e_node2 = 1, e_dataIndex = 0, e_hostGraph = Some 0\<rparr>"
  by (simp_all add: exD_edge_def exD_nodes_simps eval_defs2 eval_nat_numeral)

lemma exD_edges_simps:
  "graphLim exD_edges = 1" "nodeLim exD_edges = 3" "edgeLim exD_edges = 2"
  "graphObjs exD_edges 0 = \<lparr>g_nodes = [0, 1, 2], g_edges = [0, 1], g_data = None, g_edgeData = None,
      g_directed = True, g_nodesMap = [''_EC_A'' \<mapsto> 0, ''_EC_B'' \<mapsto> 1, ''_EC_C'' \<mapsto> 2],
      g_edgesMap = [''A-B'' \<mapsto> 0, ''A-C'' \<mapsto> 1]\<rparr>"
  "nodeObjs exD_edges 0 = \<lparr>n_id = ''A'', n_inEdges = [], n_outEdges = [0, 1], n_edges = [0, 1],
      n_hostGraph = Some 0, n_dataIndex = 0, n_visited = False\<rparr>"
  "nodeObjs exD_edges (Suc 0) = \<lparr>n_id = ''B'', n_inEdges = [0], n_outEdges = [], n_edges = [0],
      n_hostGraph = Some 0, n_dataIndex = 1, n_visited = False\<rparr>"
  "nodeObjs exD_edges (Suc (Suc 0)) = \<lparr>n_id = ''C'', n_inEdges = [1], n_outEdges = [], n_edges = [1],
      n_hostGraph = Some 0, n_dataIndex = 2, n_visited = False\<rparr>"
  "edgeObjs exD_edges 0 = \<lparr>e_node1 = 0, e_node2 = 1, e_dataIndex = 0, e_hostGraph = Some 0\<rparr>"
  "edgeObjs exD_edges (Suc 0) = \<lparr>e_node1 = 0, e_node2 = 2, e_dataIndex = 1, e_hostGraph = Some 0\<rparr>"
  by (simp_all add: exD_edges_def exD_edge_simps eval_defs2 eval_nat_numeral)

lemma exD_simps:
  "graphLim exD = 1" "nodeLim exD = 3" "edgeLim exD = 2"
  "graphObjs exD 0 = \<lparr>g_nodes = [0, 1, 2], g_edges = [0, 1], g_data = Some (tableOf [2, 0]),
      g_edgeData = Some (tableOf [0, 1]),
      g_directed = True, g_nodesMap = [''_EC_A'' \<mapsto> 0, ''_EC_B'' \<mapsto> 1, ''_EC_C'' \<mapsto> 2],
      g_edgesMap = [''A-B'' \<mapsto> 0, ''A-C'' \<mapsto> 1]\<rparr>"
  "nodeObjs exD = nodeObjs exD_edges"
  "edgeObjs exD = edgeObjs exD_edges"
  by (simp_all add: exD_def bindTables_def updGraph_def exD_edges_simps eval_nat_numeral)

theorem update_live_edges_have_live_ends_witness:
  "update exD 0 = Inr (projr (update exD 0))
   \<and> g_edges (graphObjs (projr (update exD 0)) 0) = [0, 1]
   \<and> map (\<lambda>e. e_dataIndex (edgeObjs (projr (update exD 0)) e)) [0, 1] = [-1, 0]
   \<and> map (\<lambda>e. (e_node1 (edgeObjs (projr (update exD 0)) e), e_node2 (edgeObjs (projr (update exD 0)) e)))
         [0, 1] = [(0, 1), (0, 2)]
   \<and> map (\<lambda>n. n_dataIndex (nodeObjs (projr (update exD 0)) n)) [0, 1, 2] = [1, -1, 0]
   \<and> g_data (graphObjs exD 0) = Some (tableOf [2, 0])
   \<and> g_edgeData (graphObjs exD 0) = Some (tableOf [0, 1])
   \<and> list_all (\<lambda>raw. 0 \<le> raw \<and> raw < int (length (g_nodes (graphObjs exD 0)))) (indices (tableOf [2, 0]))
   \<and> list_all (\<lambda>raw. 0 \<le> raw \<and> raw < int (length (g_edges (graphObjs exD 0)))) (indices (tableOf [0, 1]))"
  using update_live_edges_have_live_ends
          [of exD 0 "projr (update exD 0)" "tableOf [2, 0]" "tableOf [0, 1]"]
  by (simp add: exD_simps exD_edges_simps heap_defs Let_def jsIndex_def update_def List_filterSelf_def
       List_count_def List_getRawIndex_def bothEndsLive_def tableOf_def eval_nat_numeral)

section \<open>Lookup of an edge by its endpoints\<close>










lemma addNodes_snd_Cons:
  "snd (addNodes h g (a # as)) = snd (addNodes (snd (addNode h g (fst a) (snd a))) g as)"
  by (simp add: Let_def split_beta)

lemma heap_ok_addNodes:
  "heap_ok h \<Longrightarrow> g < graphLim h \<Longrightarrow> heap_ok (snd (addNodes h g args))"
proof (induction args arbitrary: h)
  case Nil
  then show ?case by simp
next
  case (Cons a as)
  have "heap_ok (snd (addNode h g (fst a) (snd a)))" using Cons.prems by (rule heap_ok_addNode)
  moreover have "g < graphLim (snd (addNode h g (fst a) (snd a)))"
    using Cons.prems by (simp add: graphLim_addNode)
  ultimately have "heap_ok (snd (addNodes (snd (addNode h g (fst a) (snd a))) g as))"
    by (rule Cons.IH)
  then show ?case by (simp only: addNodes_snd_Cons)
qed

lemma graphLim_addNodes: "graphLim (snd (addNodes h g args)) = graphLim h"
proof (induction args arbitrary: h)
  case Nil
  then show ?case by simp
next
  case (Cons a as)
  then show ?case by (simp only: addNodes_snd_Cons graphLim_addNode)
qed

lemma heap_ok_bindTables: "heap_ok h \<Longrightarrow> heap_ok (bindTables h g data edgeData)"
  by (simp add: heap_ok_def graph_ok_def bindTables_def updGraph_def edgeKeyOf_def)

lemma ownArg_simps [simp]: "ownArg h g (NodeId s)" "ownArg h g (NodeIdx i)"
  by (simp_all add: ownArg_def)

lemma heap_ok_exD: "heap_ok exD"
  unfolding exD_def exD_edges_def exD_edge_def exD_nodes_def
  by (intro heap_ok_bindTables heap_ok_addEdge heap_ok_addNodes heap_ok_Graph_new heap_ok_empty)
     (simp_all add: graphLim_addEdge graphLim_addNodes graphLim_Graph_new emptyHeap_def del: addNodes.simps)


lemma heap_ok_graph: "heap_ok h \<Longrightarrow> g < graphLim h \<Longrightarrow> graph_ok h g"
  by (simp add: heap_ok_def)











section \<open>Operations that keep the topology\<close>

lemma same_struct_refl [simp]: "same_struct h h"
  by (simp add: same_struct_def)

lemma same_struct_trans: "same_struct h h1 \<Longrightarrow> same_struct h1 h2 \<Longrightarrow> same_struct h h2"
  by (simp add: same_struct_def)

lemma same_struct_visited [simp]: "same_struct h (updNode n (\<lambda>N. N\<lparr>n_visited := b\<rparr>) h)"
  by (simp add: same_struct_def updNode_def)

lemma same_struct_n_dataIndex [simp]: "same_struct h (updNode n (\<lambda>N. N\<lparr>n_dataIndex := i\<rparr>) h)"
  by (simp add: same_struct_def updNode_def)

lemma same_struct_e_dataIndex [simp]: "same_struct h (updEdge e (\<lambda>E. E\<lparr>e_dataIndex := i\<rparr>) h)"
  by (simp add: same_struct_def updEdge_def)

lemma same_struct_edgeData [simp]: "same_struct h (updGraph g (\<lambda>G. G\<lparr>g_edgeData := d\<rparr>) h)"
  by (simp add: same_struct_def updGraph_def)

lemma same_struct_fold:
  assumes "\<And>x h. same_struct h (f x h)"
  shows "same_struct h (fold f xs h)"
proof (induction xs arbitrary: h)
  case Nil
  then show ?case by simp
next
  case (Cons x xs)
  have "same_struct h (f x h)" by (rule assms)
  moreover have "same_struct (f x h) (fold f xs (f x h))" by (rule Cons.IH)
  ultimately show ?case by (simp add: same_struct_trans)
qed

lemma edgeKeyOf_same_struct: "same_struct h h' \<Longrightarrow> edgeKeyOf h' e = edgeKeyOf h e"
  by (simp add: same_struct_def edgeKeyOf_def)

lemma graph_ok_same_struct:
  assumes "same_struct h h'" and "graph_ok h g"
  shows "graph_ok h' g"
  using assms(2) unfolding graph_ok_def edgeKeyOf_same_struct [OF assms(1)]
  using assms(1) by (simp add: same_struct_def)

lemma heap_ok_same_struct:
  assumes "same_struct h h'" and "heap_ok h"
  shows "heap_ok h'"
proof -
  have "\<forall>g<graphLim h'. graph_ok h' g"
    using assms graph_ok_same_struct [OF assms(1)] by (simp add: heap_ok_def same_struct_def)
  then show ?thesis using assms by (simp add: heap_ok_def same_struct_def)
qed

lemma visitEdges_same_struct:
  "visitEdges cb c es h q s = Inr (stop, h', q', s') \<Longrightarrow> same_struct h h'"
proof (induction es arbitrary: h q s)
  case Nil
  then show ?case by simp
next
  case (Cons e es)
  from Cons.prems obtain E N where E: "getEdgeObj h e = Some E"
    and N: "getNodeObj h (if e_node1 E = c then e_node2 E else e_node1 E) = Some N"
    by (auto simp: Let_def split: option.splits)
  let ?other = "if e_node1 E = c then e_node2 E else e_node1 E"
  show ?case
  proof (cases "n_visited N")
    case True
    with Cons.prems E N have "visitEdges cb c es h q s = Inr (stop, h', q', s')"
      by (simp add: Let_def)
    then show ?thesis by (rule Cons.IH)
  next
    case False
    obtain st s1 where cb: "cb s ?other (Some c) = (st, s1)" by (cases "cb s ?other (Some c)")
    show ?thesis
    proof (cases st)
      case True
      with Cons.prems E N False cb have "h' = h" by (simp add: Let_def)
      then show ?thesis by simp
    next
      case nst: False
      let ?h1 = "updNode ?other (\<lambda>N. N\<lparr>n_visited := True\<rparr>) h"
      from Cons.prems E N False cb nst
      have "visitEdges cb c es ?h1 (q @ [?other]) s1 = Inr (stop, h', q', s')"
        by (simp add: Let_def)
      then have "same_struct ?h1 h'" by (rule Cons.IH)
      then show ?thesis using same_struct_trans same_struct_visited by blast
    qed
  qed
qed

lemma bfsLoop_same_struct:
  "bfsLoop cb d h q s = Inr (h', s') \<Longrightarrow> same_struct h h'"
proof (induction cb d h q s rule: bfsLoop.induct)
  case (1 cb d h s)
  then show ?case by simp
next
  case (2 cb d h currentNode queue s)
  from "2.prems" obtain N where N: "getNodeObj h currentNode = Some N"
    by (auto split: option.splits)
  from "2.prems" N obtain stop h1 q1 s1 where
    v: "visitEdges cb currentNode (edgeType d N) h queue s = Inr (stop, h1, q1, s1)"
    by (auto split: sum.splits)
  have s1: "same_struct h h1" using v by (rule visitEdges_same_struct)
  show ?case
  proof (cases stop)
    case True
    with "2.prems" N v have "h' = h1" by simp
    then show ?thesis using s1 by simp
  next
    case False
    with "2.prems" N v have "bfsLoop cb d h1 q1 s1 = Inr (h', s')" by simp
    from "2.IH" [OF N v _ _ _ False this] have "same_struct h1 h'" by simp
    then show ?thesis using s1 same_struct_trans by blast
  qed
qed

lemma breadthFirstTraverse_same_struct:
  assumes "breadthFirstTraverse cb s h g start d = Inr (h', s')"
  shows "same_struct h h'"
proof (cases "resolveStart (graphObjs h g) start")
  case None
  with assms show ?thesis by (simp add: breadthFirstTraverse_def)
next
  case (Some st)
  let ?h1 = "fold (\<lambda>r. updNode r (\<lambda>N. N\<lparr>n_visited := False\<rparr>)) (g_nodes (graphObjs h g)) h"
  have h1: "same_struct h ?h1" by (rule same_struct_fold) simp
  obtain stop s1 where cb: "cb s st None = (stop, s1)" by (cases "cb s st None")
  show ?thesis
  proof (cases stop)
    case True
    with assms Some cb have "h' = ?h1" by (simp add: breadthFirstTraverse_def Let_def)
    then show ?thesis using h1 by simp
  next
    case False
    with assms Some cb have "bfsLoop cb d ?h1 [st] s1 = Inr (h', s')"
      by (simp add: breadthFirstTraverse_def Let_def)
    then have "same_struct ?h1 h'" by (rule bfsLoop_same_struct)
    then show ?thesis using h1 same_struct_trans by blast
  qed
qed

section \<open>Stopping a traversal\<close>

lemma list_all_butlast: "list_all P xs \<Longrightarrow> list_all P (butlast xs)"
  by (auto simp: list_all_iff dest: in_set_butlastD)

lemma logged_apply:
  "logged cb (s, calls) n from = (fst (cb s n from), (snd (cb s n from), calls @ [(n, from, fst (cb s n from))]))"
  by (simp add: logged_def Let_def split_beta)

lemma visitEdges_logged:
  assumes "visitEdges (logged cb) c es h q (s, calls0) = Inr (stop, h', q', (s', calls))"
    and "list_all notStop calls0"
  shows "list_all notStop (butlast calls) \<and> (\<not> stop \<longrightarrow> list_all notStop calls)"
  using assms
proof (induction es arbitrary: h q s calls0)
  case Nil
  then show ?case by (simp add: list_all_butlast)
next
  case (Cons e es)
  from Cons.prems(1) obtain E N where E: "getEdgeObj h e = Some E"
    and N: "getNodeObj h (if e_node1 E = c then e_node2 E else e_node1 E) = Some N"
    by (auto simp: Let_def split: option.splits)
  let ?other = "if e_node1 E = c then e_node2 E else e_node1 E"
  show ?case
  proof (cases "n_visited N")
    case True
    with Cons.prems(1) E N have "visitEdges (logged cb) c es h q (s, calls0) = Inr (stop, h', q', (s', calls))"
      by (simp add: Let_def)
    then show ?thesis using Cons.prems(2) by (rule Cons.IH)
  next
    case False
    let ?st = "fst (cb s ?other (Some c))" and ?s1 = "snd (cb s ?other (Some c))"
    let ?calls1 = "calls0 @ [(?other, Some c, ?st)]"
    have lg: "logged cb (s, calls0) ?other (Some c) = (?st, (?s1, ?calls1))" by (rule logged_apply)
    show ?thesis
    proof (cases ?st)
      case True
      with Cons.prems(1) E N False lg have "calls = ?calls1" "stop"
        by (simp_all add: Let_def)
      then show ?thesis using Cons.prems(2) by simp
    next
      case nst: False
      let ?h1 = "updNode ?other (\<lambda>N. N\<lparr>n_visited := True\<rparr>) h"
      from Cons.prems(1) E N False lg nst
      have "visitEdges (logged cb) c es ?h1 (q @ [?other]) (?s1, ?calls1) = Inr (stop, h', q', (s', calls))"
        by (simp add: Let_def)
      moreover have "list_all notStop ?calls1" using Cons.prems(2) nst by (simp add: list_all_iff notStop_def)
      ultimately show ?thesis by (rule Cons.IH)
    qed
  qed
qed

lemma bfsLoop_logged:
  assumes "bfsLoop (logged cb) d h q (s, calls0) = Inr (h', (s', calls))"
    and "list_all notStop calls0"
  shows "list_all notStop (butlast calls)"
  using assms
proof (induction "logged cb" d h q "(s, calls0)" arbitrary: s calls0 rule: bfsLoop.induct)
  case (1 d h)
  then show ?case by (simp add: list_all_butlast)
next
  case (2 d h currentNode queue)
  from "2.prems"(1) obtain N where N: "getNodeObj h currentNode = Some N"
    by (auto split: option.splits)
  from "2.prems"(1) N obtain stop h1 q1 s1 calls1 where
    v: "visitEdges (logged cb) currentNode (edgeType d N) h queue (s, calls0) = Inr (stop, h1, q1, (s1, calls1))"
    by (auto split: sum.splits)
  note vl = visitEdges_logged [OF v "2.prems"(2)]
  show ?case
  proof (cases stop)
    case True
    with "2.prems"(1) N v have "calls = calls1" by simp
    then show ?thesis using vl by simp
  next
    case False
    with "2.prems"(1) N v have l: "bfsLoop (logged cb) d h1 q1 (s1, calls1) = Inr (h', (s', calls))" by simp
    from vl False have "list_all notStop calls1" by simp
    from "2.hyps" [OF N v refl refl refl False l this] show ?thesis .
  qed
qed

lemma breadthFirstTraverse_logged:
  assumes "breadthFirstTraverse (logged cb) (s, []) h g start d = Inr (h', (s', calls))"
  shows "list_all notStop (butlast calls)"
proof (cases "resolveStart (graphObjs h g) start")
  case None
  with assms show ?thesis by (simp add: breadthFirstTraverse_def)
next
  case (Some st)
  let ?h1 = "fold (\<lambda>r. updNode r (\<lambda>N. N\<lparr>n_visited := False\<rparr>)) (g_nodes (graphObjs h g)) h"
  let ?stop = "fst (cb s st None)" and ?s1 = "snd (cb s st None)"
  have lg: "logged cb (s, []) st None = (?stop, (?s1, [(st, None, ?stop)]))"
    using logged_apply [of cb s "[]" st None] by simp
  show ?thesis
  proof (cases ?stop)
    case True
    with assms Some lg have "calls = [(st, None, True)]" by (simp add: breadthFirstTraverse_def Let_def)
    then show ?thesis by simp
  next
    case False
    with assms Some lg have "bfsLoop (logged cb) d ?h1 [st] (?s1, [(st, None, False)]) = Inr (h', (s', calls))"
      by (simp add: breadthFirstTraverse_def Let_def)
    moreover have "list_all notStop [(st, None, False)]" by (simp add: list_all_iff notStop_def)
    ultimately show ?thesis by (rule bfsLoop_logged)
  qed
qed

lemma breadthFirstTraverse_stop_at_start:
  assumes "resolveStart (graphObjs h g) start = Some st" and "fst (cb s st None)"
  shows "callsOf (breadthFirstTraverse (logged cb) (s, []) h g start d) = Some [(st, None, True)]"
  using assms logged_apply [of cb s "[]" st None]
  by (simp add: breadthFirstTraverse_def Let_def callsOf_def)


lemma same_struct_lims:
  "same_struct h h' \<Longrightarrow> nodeLim h' = nodeLim h \<and> edgeLim h' = edgeLim h \<and> graphLim h' = graphLim h"
  by (simp add: same_struct_def)

lemma visitEdges_succeeds:
  assumes "heap_ok h" and "\<forall>e\<in>set es. e < edgeLim h" and "\<forall>n\<in>set q. n < nodeLim h"
  shows "\<exists>stop h' q' s'. visitEdges cb c es h q s = Inr (stop, h', q', s') \<and> (\<forall>n\<in>set q'. n < nodeLim h)"
  using assms
proof (induction es arbitrary: h q s)
  case Nil
  then show ?case by auto
next
  case (Cons e es)
  have e: "e < edgeLim h" using Cons.prems(2) by simp
  then have E: "getEdgeObj h e = Some (edgeObjs h e)" by (simp add: getEdgeObj_def)
  let ?other = "if e_node1 (edgeObjs h e) = c then e_node2 (edgeObjs h e) else e_node1 (edgeObjs h e)"
  have other: "?other < nodeLim h" using Cons.prems(1) e by (simp add: heap_ok_def)
  then have N: "getNodeObj h ?other = Some (nodeObjs h ?other)" by (simp add: getNodeObj_def)
  show ?case
  proof (cases "n_visited (nodeObjs h ?other)")
    case True
    have "\<exists>stop h' q' s'. visitEdges cb c es h q s = Inr (stop, h', q', s') \<and> (\<forall>n\<in>set q'. n < nodeLim h)"
      using Cons.prems by (intro Cons.IH) simp_all
    then show ?thesis using E N True by (simp add: Let_def)
  next
    case False
    obtain st s1 where cb: "cb s ?other (Some c) = (st, s1)" by (cases "cb s ?other (Some c)")
    show ?thesis
    proof (cases st)
      case True
      then show ?thesis using E N False cb Cons.prems(3) by (auto simp: Let_def)
    next
      case nst: False
      let ?h1 = "updNode ?other (\<lambda>N. N\<lparr>n_visited := True\<rparr>) h"
      have ss: "same_struct h ?h1" by simp
      have ok1: "heap_ok ?h1" using ss Cons.prems(1) by (rule heap_ok_same_struct)
      have lims: "nodeLim ?h1 = nodeLim h" "edgeLim ?h1 = edgeLim h" by (simp_all add: updNode_def)
      have "\<exists>stop h' q' s'. visitEdges cb c es ?h1 (q @ [?other]) s1 = Inr (stop, h', q', s')
              \<and> (\<forall>n\<in>set q'. n < nodeLim ?h1)"
        using ok1 Cons.prems(2,3) other by (intro Cons.IH) (simp_all add: lims)
      then show ?thesis using E N False cb nst by (simp add: Let_def lims)
    qed
  qed
qed

lemma edgeType_allocated:
  assumes "heap_ok h" and "n < nodeLim h"
  shows "\<forall>e\<in>set (edgeType d (nodeObjs h n)). e < edgeLim h"
  using assms by (cases d) (simp_all add: heap_ok_def edgeType_def)

lemma bfsLoop_succeeds:
  assumes "heap_ok h" and "\<forall>n\<in>set q. n < nodeLim h"
  shows "\<exists>h' s'. bfsLoop cb d h q s = Inr (h', s')"
  using assms
proof (induction cb d h q s rule: bfsLoop.induct)
  case (1 cb d h s)
  then show ?case by simp
next
  case (2 cb d h currentNode queue s)
  have cur: "currentNode < nodeLim h" using "2.prems"(2) by simp
  then have N: "getNodeObj h currentNode = Some (nodeObjs h currentNode)" by (simp add: getNodeObj_def)
  let ?N = "nodeObjs h currentNode"
  have "\<exists>stop h' q' s'. visitEdges cb currentNode (edgeType d ?N) h queue s = Inr (stop, h', q', s')
          \<and> (\<forall>n\<in>set q'. n < nodeLim h)"
    using "2.prems" edgeType_allocated [OF "2.prems"(1) cur] by (intro visitEdges_succeeds) simp_all
  then obtain stop h1 q1 s1 where
    v: "visitEdges cb currentNode (edgeType d ?N) h queue s = Inr (stop, h1, q1, s1)"
    and q1: "\<forall>n\<in>set q1. n < nodeLim h" by blast
  have ss: "same_struct h h1" using v by (rule visitEdges_same_struct)
  show ?case
  proof (cases stop)
    case True
    then show ?thesis using N v by simp
  next
    case False
    have "heap_ok h1" using ss "2.prems"(1) by (rule heap_ok_same_struct)
    moreover have "\<forall>n\<in>set q1. n < nodeLim h1" using q1 same_struct_lims [OF ss] by simp
    ultimately have "\<exists>h' s'. bfsLoop cb d h1 q1 s1 = Inr (h', s')"
      by (rule "2.IH" [OF N v refl refl refl False])
    then show ?thesis using N v False by simp
  qed
qed

lemma resolveStart_allocated:
  assumes "heap_ok h" and "g < graphLim h" and "\<forall>r. start = ANode r \<longrightarrow> r < nodeLim h"
    and "resolveStart (graphObjs h g) start = Some st"
  shows "st < nodeLim h"
proof (cases start)
  case (ANode r)
  then show ?thesis using assms(3,4) by (simp add: resolveStart_def)
next
  case (AnId i)
  then have "g_nodesMap (graphObjs h g) (generateNodeKey i) = Some st"
    using assms(4) by (simp add: resolveStart_def)
  then have "st \<in> set (g_nodes (graphObjs h g))"
    using graph_okD(10) [OF heap_ok_graph [OF assms(1,2)]] by blast
  then show ?thesis using graph_okD(3) [OF heap_ok_graph [OF assms(1,2)]] by blast
qed

lemma breadthFirstTraverse_succeeds:
  assumes ok: "heap_ok h" and g: "g < graphLim h" and st: "\<forall>r. start = ANode r \<longrightarrow> r < nodeLim h"
  shows "\<exists>h' s'. breadthFirstTraverse cb s h g start d = Inr (h', s')"
proof (cases "resolveStart (graphObjs h g) start")
  case None
  then show ?thesis by (simp add: breadthFirstTraverse_def)
next
  case (Some n)
  let ?h1 = "fold (\<lambda>r. updNode r (\<lambda>N. N\<lparr>n_visited := False\<rparr>)) (g_nodes (graphObjs h g)) h"
  have ss: "same_struct h ?h1" by (rule same_struct_fold) simp
  have ok1: "heap_ok ?h1" using ss ok by (rule heap_ok_same_struct)
  have "n < nodeLim h" using ok g st Some by (rule resolveStart_allocated)
  then have "\<forall>x\<in>set [n]. x < nodeLim ?h1" using same_struct_lims [OF ss] by simp
  from bfsLoop_succeeds [OF ok1 this]
  have "\<exists>h' s'. bfsLoop cb d ?h1 [n] (snd (cb s n None)) = Inr (h', s')" .
  then show ?thesis using Some by (simp add: breadthFirstTraverse_def Let_def split_beta)
qed

text \<open>
  C8. In the invocations a traversal makes of its callback, every invocation but the last
  returned false: once the callback returns true, no further node is visited, whatever is
  still in the queue. When the callback returns true on the start node, that invocation is
  the only one. And in a well-formed store the traversal does return.
\<close>

theorem bfs_stops_at_true:
  "(breadthFirstTraverse (logged cb) (s, []) h g startNode direction = Inr (h', s', calls) \<longrightarrow>
      list_all notStop (butlast calls))
   \<and> (resolveStart (graphObjs h g) startNode = Some st \<and> fst (cb s st None) \<longrightarrow>
      callsOf (breadthFirstTraverse (logged cb) (s, []) h g startNode direction)
        = Some [(st, None, True)])
   \<and> (heap_ok h \<and> g < graphLim h \<and> (\<forall>r. startNode = ANode r \<longrightarrow> r < nodeLim h) \<longrightarrow>
      callsOf (breadthFirstTraverse (logged cb) (s, []) h g startNode direction) \<noteq> None)"
proof (intro conjI impI)
  assume "breadthFirstTraverse (logged cb) (s, []) h g startNode direction = Inr (h', s', calls)"
  then show "list_all notStop (butlast calls)" by (rule breadthFirstTraverse_logged)
next
  assume "resolveStart (graphObjs h g) startNode = Some st \<and> fst (cb s st None)"
  then show "callsOf (breadthFirstTraverse (logged cb) (s, []) h g startNode direction)
        = Some [(st, None, True)]"
    by (simp add: breadthFirstTraverse_stop_at_start)
next
  assume "heap_ok h \<and> g < graphLim h \<and> (\<forall>r. startNode = ANode r \<longrightarrow> r < nodeLim h)"
  then obtain h1 s1 where "breadthFirstTraverse (logged cb) (s, []) h g startNode direction = Inr (h1, s1)"
    using breadthFirstTraverse_succeeds [of h g startNode "logged cb" "(s, [])" direction] by blast
  then show "callsOf (breadthFirstTraverse (logged cb) (s, []) h g startNode direction) \<noteq> None"
    by (cases s1) (simp add: callsOf_def)
qed

theorem bfs_stops_at_true_witness:
  "breadthFirstTraverse (logged (stopAt 1)) ((), []) exD 0 (AnId ''A'') DirOut
     = Inr (projr (breadthFirstTraverse (logged (stopAt 1)) ((), []) exD 0 (AnId ''A'') DirOut))
   \<and> snd (snd (projr (breadthFirstTraverse (logged (stopAt 1)) ((), []) exD 0 (AnId ''A'') DirOut)))
       = [(0, None, False), (1, Some 0, True)]
   \<and> list_all notStop (butlast [(0, None, False), (1, Some 0, True)])
   \<and> callsOf (breadthFirstTraverse (logged neverStop) ((), []) exD 0 (AnId ''A'') DirOut)
       = Some [(0, None, False), (1, Some 0, False), (2, Some 0, False)]
   \<and> resolveStart (graphObjs exD 0) (AnId ''A'') = Some 0
   \<and> fst (stopAt 0 () 0 None)
   \<and> callsOf (breadthFirstTraverse (logged (stopAt 0)) ((), []) exD 0 (AnId ''A'') DirOut)
       = Some [(0, None, True)]
   \<and> heap_ok exD \<and> 0 < graphLim exD"
  using bfs_stops_at_true [of "stopAt 1" "()" exD 0 "AnId ''A''" DirOut
      "fst (projr (breadthFirstTraverse (logged (stopAt 1)) ((), []) exD 0 (AnId ''A'') DirOut))"
      "fst (snd (projr (breadthFirstTraverse (logged (stopAt 1)) ((), []) exD 0 (AnId ''A'') DirOut)))"
      "snd (snd (projr (breadthFirstTraverse (logged (stopAt 1)) ((), []) exD 0 (AnId ''A'') DirOut)))"
      0]
    bfs_stops_at_true [of "stopAt 0" "()" exD 0 "AnId ''A''" DirOut _ _ _ 0]
    heap_ok_exD
  by (simp add: exD_simps exD_edges_simps bfs_eval stopAt_def heap_defs generateNodeKey_def
        list_all_iff notStop_def eval_nat_numeral)

section \<open>The tables behind the accessors\<close>

lemmas proxy_eval = GraphEdge_proxy_def GraphNode_proxy_def createGraphDataProxyMixin_def readTable_def
  writeTable_def host_hostGraph_def host_dataIndex_def List_getRawIndex_def jsIndex_def tableOf_def
  List_setItemLayout_def List_getItemLayout_def layoutsAt_def updGraph_def

text \<open>
  C1. In the directed example graph, bound to a node table with the live storage indices
  2, 0 and an edge table with the live storage indices 0, 1, the accessors of the node A
  (position 0) go to the edge table and those of the edge A-B (position 0) go to the node
  table: \<^verbatim>\<open>node.getRawIndex()\<close> is 0 where the node table says 2, \<^verbatim>\<open>edge.getRawIndex()\<close> is 2
  where the edge table says 0, and \<^verbatim>\<open>setLayout\<close> on the node writes into the edge table, on
  the edge into the node table.
\<close>

theorem proxy_tables_swapped:
  "g_data (graphObjs exD 0) = Some (tableOf [2, 0])
   \<and> g_edgeData (graphObjs exD 0) = Some (tableOf [0, 1])
   \<and> n_hostGraph (nodeObjs exD 0) = Some 0 \<and> n_dataIndex (nodeObjs exD 0) = 0
   \<and> e_hostGraph (edgeObjs exD 0) = Some 0 \<and> e_dataIndex (edgeObjs exD 0) = 0
   \<and> List_getRawIndex (tableOf [2, 0]) 0 = 2
   \<and> List_getRawIndex (tableOf [0, 1]) 0 = 0
   \<and> getRawIndex GraphNode_proxy exD (HostNode 0) = Inr 0
   \<and> getRawIndex GraphEdge_proxy exD (HostEdge 0) = Inr 2
   \<and> layoutsAt 0 (setLayout GraphNode_proxy exD (HostNode 0) (Num 7) False) 0
       = Some (Some Undefined, Some (Num 7))
   \<and> layoutsAt 0 (setLayout GraphEdge_proxy exD (HostEdge 0) (Num 7) False) 0
       = Some (Some (Num 7), Some Undefined)"
  by (simp add: exD_simps exD_edges_simps proxy_eval)

section \<open>The adjacency lists\<close>

lemma adjacencyI:
  assumes "\<And>e. e \<in> set (g_edges (graphObjs h g)) \<Longrightarrow>
          count_list (n_edges (nodeObjs h (e_node1 (edgeObjs h e)))) e = 1
        \<and> count_list (n_edges (nodeObjs h (e_node2 (edgeObjs h e)))) e = 1
        \<and> (g_directed (graphObjs h g) \<longrightarrow>
              e \<in> set (n_outEdges (nodeObjs h (e_node1 (edgeObjs h e))))
            \<and> e \<in> set (n_inEdges (nodeObjs h (e_node2 (edgeObjs h e)))))"
    and "\<And>n. n \<in> set (g_nodes (graphObjs h g)) \<Longrightarrow>
          set (n_edges (nodeObjs h n)) \<union> set (n_inEdges (nodeObjs h n)) \<union> set (n_outEdges (nodeObjs h n))
            \<subseteq> set (g_edges (graphObjs h g))
        \<and> (\<not> g_directed (graphObjs h g) \<longrightarrow>
              n_inEdges (nodeObjs h n) = [] \<and> n_outEdges (nodeObjs h n) = [])"
  shows "adjacency h g"
  unfolding adjacency_def using assms by blast

lemma adjacencyD:
  assumes "adjacency h g"
  shows "\<And>e. e \<in> set (g_edges (graphObjs h g)) \<Longrightarrow>
          count_list (n_edges (nodeObjs h (e_node1 (edgeObjs h e)))) e = 1"
    and "\<And>e. e \<in> set (g_edges (graphObjs h g)) \<Longrightarrow>
          count_list (n_edges (nodeObjs h (e_node2 (edgeObjs h e)))) e = 1"
    and "\<And>e. e \<in> set (g_edges (graphObjs h g)) \<Longrightarrow> g_directed (graphObjs h g) \<Longrightarrow>
          e \<in> set (n_outEdges (nodeObjs h (e_node1 (edgeObjs h e))))"
    and "\<And>e. e \<in> set (g_edges (graphObjs h g)) \<Longrightarrow> g_directed (graphObjs h g) \<Longrightarrow>
          e \<in> set (n_inEdges (nodeObjs h (e_node2 (edgeObjs h e))))"
    and "\<And>n. n \<in> set (g_nodes (graphObjs h g)) \<Longrightarrow>
          set (n_edges (nodeObjs h n)) \<union> set (n_inEdges (nodeObjs h n)) \<union> set (n_outEdges (nodeObjs h n))
            \<subseteq> set (g_edges (graphObjs h g))"
    and "\<And>n. n \<in> set (g_nodes (graphObjs h g)) \<Longrightarrow> \<not> g_directed (graphObjs h g) \<Longrightarrow>
          n_inEdges (nodeObjs h n) = []"
    and "\<And>n. n \<in> set (g_nodes (graphObjs h g)) \<Longrightarrow> \<not> g_directed (graphObjs h g) \<Longrightarrow>
          n_outEdges (nodeObjs h n) = []"
  using assms unfolding adjacency_def by blast+

lemma adjacency_same_struct:
  assumes "same_struct h h'" and "adjacency h g"
  shows "adjacency h' g"
  using assms by (simp add: same_struct_def adjacency_def)

lemma store_ok_same_struct:
  assumes "same_struct h h'" and "store_ok h"
  shows "store_ok h'"
  using assms heap_ok_same_struct [OF assms(1)] adjacency_same_struct [OF assms(1)]
  by (simp add: store_ok_def same_struct_lims)

lemma store_ok_empty: "store_ok emptyHeap"
  by (simp add: store_ok_def heap_ok_empty) (simp add: emptyHeap_def)

lemma store_ok_Graph_new:
  assumes "store_ok h"
  shows "store_ok (snd (Graph_new h d))"
proof -
  have "adjacency (snd (Graph_new h d)) g" if "g < Suc (graphLim h)" for g
  proof (cases "g = graphLim h")
    case True
    then show ?thesis by (simp add: adjacency_def Graph_new_def allocGraph_def)
  next
    case False
    then have "g < graphLim h" using that by simp
    then have "adjacency h g" using assms by (simp add: store_ok_def)
    then show ?thesis using False by (simp add: adjacency_def Graph_new_def allocGraph_def)
  qed
  then show ?thesis using assms heap_ok_Graph_new [of h d]
    by (simp add: store_ok_def graphLim_Graph_new)
qed

lemma store_ok_addNode:
  assumes ok: "store_ok h" and g: "g < graphLim h"
  shows "store_ok (snd (addNode h g ident di))"
proof (cases "g_nodesMap (graphObjs h g) (generateNodeKey (normalizeId ident di))")
  case (Some a)
  then show ?thesis using ok by (simp add: addNode_def Let_def)
next
  case None
  have hok: "heap_ok h" using ok by (simp add: store_ok_def)
  from addNode_effect [OF None] obtain h' where
    r: "addNode h g ident di = (Some (nodeLim h), h')"
    and lims: "graphLim h' = graphLim h" "nodeLim h' = Suc (nodeLim h)" "edgeLim h' = edgeLim h"
    and G: "graphObjs h' = (graphObjs h)(g := (graphObjs h g)
           \<lparr>g_nodes := g_nodes (graphObjs h g) @ [nodeLim h],
            g_nodesMap := (g_nodesMap (graphObjs h g))
                            (generateNodeKey (normalizeId ident di) \<mapsto> nodeLim h)\<rparr>)"
    and N: "nodeObjs h' = (nodeObjs h)(nodeLim h :=
           (GraphNode_new (Some (normalizeId ident di)) di)\<lparr>n_hostGraph := Some g\<rparr>)"
    and E: "edgeObjs h' = edgeObjs h" by blast
  have "adjacency h' g0" if g0: "g0 < graphLim h" for g0
  proof -
    have old: "adjacency h g0" using ok g0 by (simp add: store_ok_def)
    note D = graph_okD [OF heap_ok_graph [OF hok g0]]
    have nodes: "\<And>n. n \<in> set (g_nodes (graphObjs h g0)) \<Longrightarrow> nodeObjs h' n = nodeObjs h n"
      using D(3) by (auto simp: N)
    have ends: "\<And>e. e \<in> set (g_edges (graphObjs h g0)) \<Longrightarrow>
        nodeObjs h' (e_node1 (edgeObjs h e)) = nodeObjs h (e_node1 (edgeObjs h e))
      \<and> nodeObjs h' (e_node2 (edgeObjs h e)) = nodeObjs h (e_node2 (edgeObjs h e))"
      using D(7,8) nodes by blast
    have Ge: "g_edges (graphObjs h' g0) = g_edges (graphObjs h g0)"
      and Gd: "g_directed (graphObjs h' g0) = g_directed (graphObjs h g0)"
      by (simp_all add: G)
    have Gn: "set (g_nodes (graphObjs h' g0)) \<subseteq> insert (nodeLim h) (set (g_nodes (graphObjs h g0)))"
      by (auto simp: G)
    have new: "n_edges (nodeObjs h' (nodeLim h)) = []" "n_inEdges (nodeObjs h' (nodeLim h)) = []"
      "n_outEdges (nodeObjs h' (nodeLim h)) = []"
      by (simp_all add: N GraphNode_new_def)
    show ?thesis
    proof (rule adjacencyI)
      fix e assume "e \<in> set (g_edges (graphObjs h' g0))"
      then have e: "e \<in> set (g_edges (graphObjs h g0))" by (simp add: Ge)
      from adjacencyD(1,2,3,4) [OF old e] ends [OF e]
      show "count_list (n_edges (nodeObjs h' (e_node1 (edgeObjs h' e)))) e = 1
        \<and> count_list (n_edges (nodeObjs h' (e_node2 (edgeObjs h' e)))) e = 1
        \<and> (g_directed (graphObjs h' g0) \<longrightarrow>
              e \<in> set (n_outEdges (nodeObjs h' (e_node1 (edgeObjs h' e))))
            \<and> e \<in> set (n_inEdges (nodeObjs h' (e_node2 (edgeObjs h' e)))))"
        by (simp add: E Gd)
    next
      fix n assume "n \<in> set (g_nodes (graphObjs h' g0))"
      then consider "n = nodeLim h" | "n \<in> set (g_nodes (graphObjs h g0))" using Gn by blast
      then show "set (n_edges (nodeObjs h' n)) \<union> set (n_inEdges (nodeObjs h' n)) \<union> set (n_outEdges (nodeObjs h' n))
            \<subseteq> set (g_edges (graphObjs h' g0))
          \<and> (\<not> g_directed (graphObjs h' g0) \<longrightarrow>
                n_inEdges (nodeObjs h' n) = [] \<and> n_outEdges (nodeObjs h' n) = [])"
      proof cases
        case 1
        then show ?thesis by (simp add: new)
      next
        case 2
        from adjacencyD(5,6,7) [OF old 2] show ?thesis by (simp add: nodes [OF 2] Ge Gd)
      qed
    qed
  qed
  then show ?thesis using r lims heap_ok_addNode [OF hok g, of ident di]
    by (simp add: store_ok_def)
qed


lemma count_list_append_notin:
  "x \<notin> set ys \<Longrightarrow> count_list (xs @ ys) x = count_list xs x"
  by (induction xs) (simp_all add: count_list_0_iff)

lemma store_ok_addEdge:
  assumes ok: "store_ok h" and g: "g < graphLim h"
    and own: "ownArg h g a1" "ownArg h g a2"
  shows "store_ok (snd (addEdge h g a1 a2 di))"
proof -
  have hok: "heap_ok h" using ok by (simp add: store_ok_def)
  have gok: "graph_ok h g" using hok g by (rule heap_ok_graph)
  consider (none) "resolveNode (graphObjs h g) a1 = None \<or> resolveNode (graphObjs h g) a2 = None"
    | (dup) n1 n2 where "resolveNode (graphObjs h g) a1 = Some n1" "resolveNode (graphObjs h g) a2 = Some n2"
        "g_edgesMap (graphObjs h g) (edgeKey (n_id (nodeObjs h n1)) (n_id (nodeObjs h n2))) \<noteq> None"
    | (fresh) n1 n2 where "resolveNode (graphObjs h g) a1 = Some n1" "resolveNode (graphObjs h g) a2 = Some n2"
        "g_edgesMap (graphObjs h g) (edgeKey (n_id (nodeObjs h n1)) (n_id (nodeObjs h n2))) = None"
    by (metis not_Some_eq)
  then show ?thesis
  proof cases
    case none
    then show ?thesis using ok by (simp add: addEdge_none)
  next
    case dup
    then show ?thesis using ok by (simp add: addEdge_dup)
  next
    case fresh
    let ?key = "edgeKey (n_id (nodeObjs h n1)) (n_id (nodeObjs h n2))"
    let ?G = "graphObjs h g"
    let ?e = "edgeLim h"
    from addEdge_fresh [OF fresh, of di] obtain h' where
      r: "addEdge h g a1 a2 di = (Some ?e, h')"
      and lims: "graphLim h' = graphLim h" "nodeLim h' = nodeLim h" "edgeLim h' = Suc ?e"
      and G: "graphObjs h' = (graphObjs h)(g := ?G
           \<lparr>g_edges := g_edges ?G @ [?e],
            g_edgesMap := (g_edgesMap ?G)(?key \<mapsto> ?e)\<rparr>)"
      and N: "\<And>r. nodeObjs h' r = (nodeObjs h r)
           \<lparr>n_inEdges := n_inEdges (nodeObjs h r) @ pushed (g_directed ?G \<and> r = n2) ?e,
            n_outEdges := n_outEdges (nodeObjs h r) @ pushed (g_directed ?G \<and> r = n1) ?e,
            n_edges := n_edges (nodeObjs h r) @ pushed (r = n1 \<or> r = n2) ?e\<rparr>"
      and E: "edgeObjs h' = (edgeObjs h)(?e := (GraphEdge_new n1 n2 di)\<lparr>e_hostGraph := Some g\<rparr>)"
      by blast
    have n1: "n1 \<in> set (g_nodes ?G)" and n2: "n2 \<in> set (g_nodes ?G)"
      using resolveNode_own [OF gok] own fresh by blast+
    have n1lt: "n1 < nodeLim h" and n2lt: "n2 < nodeLim h" using graph_okD(3) [OF gok] n1 n2 by blast+
    have Ne: "\<And>r. n_edges (nodeObjs h' r) = n_edges (nodeObjs h r) @ pushed (r = n1 \<or> r = n2) ?e"
      and Ni: "\<And>r. n_inEdges (nodeObjs h' r) = n_inEdges (nodeObjs h r) @ pushed (g_directed ?G \<and> r = n2) ?e"
      and No: "\<And>r. n_outEdges (nodeObjs h' r) = n_outEdges (nodeObjs h r) @ pushed (g_directed ?G \<and> r = n1) ?e"
      by (simp_all add: N)
    have Eold: "\<And>x. x < ?e \<Longrightarrow> edgeObjs h' x = edgeObjs h x" by (simp add: E)
    have Enew: "e_node1 (edgeObjs h' ?e) = n1" "e_node2 (edgeObjs h' ?e) = n2"
      by (simp_all add: E GraphEdge_new_def)
    have fresh_in: "\<And>r. r < nodeLim h \<Longrightarrow> ?e \<notin> set (n_edges (nodeObjs h r))"
      using hok by (fastforce simp: heap_ok_def)
    have pushed_old: "\<And>x b. x < ?e \<Longrightarrow> x \<notin> set (pushed b ?e)" by (simp add: pushed_def)
    have "adjacency h' g0" if g0: "g0 < graphLim h" for g0
    proof -
      have old: "adjacency h g0" using ok g0 by (simp add: store_ok_def)
      note D = graph_okD [OF heap_ok_graph [OF hok g0]]
      have Gn: "g_nodes (graphObjs h' g0) = g_nodes (graphObjs h g0)"
        and Gd: "g_directed (graphObjs h' g0) = g_directed (graphObjs h g0)"
        by (simp_all add: G)
      have Ge: "set (g_edges (graphObjs h' g0)) = set (g_edges (graphObjs h g0)) \<union> (if g0 = g then {?e} else {})"
        by (simp add: G)
      show ?thesis
      proof (rule adjacencyI)
        fix x assume "x \<in> set (g_edges (graphObjs h' g0))"
        then consider (old) "x \<in> set (g_edges (graphObjs h g0))" | (new) "x = ?e" "g0 = g"
          by (auto simp: Ge split: if_splits)
        then show "count_list (n_edges (nodeObjs h' (e_node1 (edgeObjs h' x)))) x = 1
          \<and> count_list (n_edges (nodeObjs h' (e_node2 (edgeObjs h' x)))) x = 1
          \<and> (g_directed (graphObjs h' g0) \<longrightarrow>
                x \<in> set (n_outEdges (nodeObjs h' (e_node1 (edgeObjs h' x))))
              \<and> x \<in> set (n_inEdges (nodeObjs h' (e_node2 (edgeObjs h' x)))))"
        proof cases
          case old
          have lt: "x < ?e" using D(6) [OF old] .
          from adjacencyD(1,2,3,4) [OF \<open>adjacency h g0\<close> old] show ?thesis
            by (simp add: Eold [OF lt] Gd Ne Ni No count_list_append_notin pushed_old [OF lt])
        next
          case new
          have c1: "count_list (n_edges (nodeObjs h n1)) ?e = 0"
            using fresh_in [OF n1lt] by (simp add: count_list_0_iff)
          have c2: "count_list (n_edges (nodeObjs h n2)) ?e = 0"
            using fresh_in [OF n2lt] by (simp add: count_list_0_iff)
          show ?thesis using c1 c2
            by (simp add: new Enew Ne Ni No pushed_def G)
        qed
      next
        fix n assume "n \<in> set (g_nodes (graphObjs h' g0))"
        then have n: "n \<in> set (g_nodes (graphObjs h g0))" by (simp add: Gn)
        note A = adjacencyD(5,6,7) [OF old n]
        show "set (n_edges (nodeObjs h' n)) \<union> set (n_inEdges (nodeObjs h' n)) \<union> set (n_outEdges (nodeObjs h' n))
              \<subseteq> set (g_edges (graphObjs h' g0))
            \<and> (\<not> g_directed (graphObjs h' g0) \<longrightarrow>
                  n_inEdges (nodeObjs h' n) = [] \<and> n_outEdges (nodeObjs h' n) = [])"
        proof (cases "g0 = g")
          case True
          have "set (g_edges (graphObjs h' g)) = insert ?e (set (g_edges ?G))"
            "g_directed (graphObjs h' g) = g_directed ?G"
            by (simp_all add: G)
          then show ?thesis using A unfolding True by (auto simp: Ne Ni No pushed_def)
        next
          case False
          have "n_hostGraph (nodeObjs h n) = Some g0" using D(4) [OF n] .
          moreover have "n_hostGraph (nodeObjs h n1) = Some g" "n_hostGraph (nodeObjs h n2) = Some g"
            using graph_okD(4) [OF gok] n1 n2 by blast+
          ultimately have "n \<noteq> n1" "n \<noteq> n2" using False by auto
          then show ?thesis using A False by (simp add: Ne Ni No Ge Gd pushed_def)
        qed
      qed
    qed
    then show ?thesis using r lims heap_ok_addEdge [OF hok g own, of di]
      by (simp add: store_ok_def)
  qed
qed


lemma setNodeIndices_same_struct:
  "setNodeIndices nodes L ps h = Inr h' \<Longrightarrow> same_struct h h'"
proof (induction ps arbitrary: h)
  case Nil
  then show ?case by simp
next
  case (Cons i ps)
  then obtain n where "setNodeIndices nodes L ps (updNode n (\<lambda>N. N\<lparr>n_dataIndex := int i\<rparr>) h) = Inr h'"
    by (auto split: option.splits)
  then have "same_struct (updNode n (\<lambda>N. N\<lparr>n_dataIndex := int i\<rparr>) h) h'" by (rule Cons.IH)
  then show ?case using same_struct_trans same_struct_n_dataIndex by blast
qed

lemma setEdgeIndices_same_struct:
  "setEdgeIndices edges L ps h = Inr h' \<Longrightarrow> same_struct h h'"
proof (induction ps arbitrary: h)
  case Nil
  then show ?case by simp
next
  case (Cons i ps)
  then obtain e where "setEdgeIndices edges L ps (updEdge e (\<lambda>E. E\<lparr>e_dataIndex := int i\<rparr>) h) = Inr h'"
    by (auto split: option.splits)
  then have "same_struct (updEdge e (\<lambda>E. E\<lparr>e_dataIndex := int i\<rparr>) h) h'" by (rule Cons.IH)
  then show ?case using same_struct_trans same_struct_e_dataIndex by blast
qed

lemma update_same_struct:
  assumes "update h g = Inr h'"
  shows "same_struct h h'"
proof -
  from assms obtain data edgeData h1 h2 raws h4 where
    h1: "h1 = fold (\<lambda>n. updNode n (\<lambda>N. N\<lparr>n_dataIndex := -1\<rparr>)) (g_nodes (graphObjs h g)) h"
    and h2: "setNodeIndices (g_nodes (graphObjs h g)) data [0..<List_count data] h1 = Inr h2"
    and h4: "h4 = fold (\<lambda>e. updEdge e (\<lambda>E. E\<lparr>e_dataIndex := -1\<rparr>)) (g_edges (graphObjs h g))
            (updGraph g (\<lambda>G. G\<lparr>g_edgeData := Some (edgeData\<lparr>indices := raws\<rparr>)\<rparr>) h2)"
    and h': "setEdgeIndices (g_edges (graphObjs h g)) (edgeData\<lparr>indices := raws\<rparr>) [0..<length raws] h4 = Inr h'"
    by (rule update_Inr)
  let ?h3 = "updGraph g (\<lambda>G. G\<lparr>g_edgeData := Some (edgeData\<lparr>indices := raws\<rparr>)\<rparr>) h2"
  have s1: "same_struct h h1" unfolding h1 by (rule same_struct_fold) simp
  have s2: "same_struct h1 h2" using h2 by (rule setNodeIndices_same_struct)
  have s3: "same_struct h2 ?h3" by simp
  have s4: "same_struct ?h3 h4" unfolding h4 by (rule same_struct_fold) simp
  have s5: "same_struct h4 h'" using h' by (rule setEdgeIndices_same_struct)
  show ?thesis
    by (rule same_struct_trans [OF same_struct_trans [OF same_struct_trans
          [OF same_struct_trans [OF s1 s2] s3] s4] s5])
qed

lemma store_ok_cloneNodes:
  "store_ok h \<Longrightarrow> graph < graphLim h \<Longrightarrow>
     store_ok (cloneNodes h graph ns) \<and> graphLim (cloneNodes h graph ns) = graphLim h"
proof (induction ns arbitrary: h)
  case Nil
  then show ?case by simp
next
  case (Cons n ns)
  let ?h1 = "snd (addNode h graph (Some (n_id (nodeObjs h n))) (Some (n_dataIndex (nodeObjs h n))))"
  have "store_ok ?h1" using Cons.prems by (rule store_ok_addNode)
  moreover have "graph < graphLim ?h1" using Cons.prems(2) by (simp add: graphLim_addNode)
  ultimately have "store_ok (cloneNodes ?h1 graph ns) \<and> graphLim (cloneNodes ?h1 graph ns) = graphLim ?h1"
    by (rule Cons.IH)
  then show ?case by (simp add: graphLim_addNode)
qed

lemma store_ok_cloneEdges:
  "store_ok h \<Longrightarrow> graph < graphLim h \<Longrightarrow>
     store_ok (cloneEdges h graph es) \<and> graphLim (cloneEdges h graph es) = graphLim h"
proof (induction es arbitrary: h)
  case Nil
  then show ?case by simp
next
  case (Cons e es)
  let ?h1 = "snd (addEdge h graph
               (NodeId (n_id (nodeObjs h (e_node1 (edgeObjs h e)))))
               (NodeId (n_id (nodeObjs h (e_node2 (edgeObjs h e)))))
               (Some (e_dataIndex (edgeObjs h e))))"
  have "store_ok ?h1" using Cons.prems by (intro store_ok_addEdge) simp_all
  moreover have "graph < graphLim ?h1" using Cons.prems(2) by (simp add: graphLim_addEdge)
  ultimately have "store_ok (cloneEdges ?h1 graph es) \<and> graphLim (cloneEdges ?h1 graph es) = graphLim ?h1"
    by (rule Cons.IH)
  then show ?case by (simp add: graphLim_addEdge)
qed

lemma store_ok_clone:
  assumes "store_ok h"
  shows "store_ok (snd (clone h g))"
proof -
  let ?d = "Some (g_directed (graphObjs h g))"
  let ?h1 = "snd (Graph_new h ?d)"
  have fst: "fst (Graph_new h ?d) = graphLim h" by (simp add: graphLim_Graph_new)
  have ok1: "store_ok ?h1" using assms by (rule store_ok_Graph_new)
  have lt: "graphLim h < graphLim ?h1" by (simp add: graphLim_Graph_new)
  let ?h2 = "cloneNodes ?h1 (graphLim h) (g_nodes (graphObjs h g))"
  have ok2: "store_ok ?h2 \<and> graphLim ?h2 = graphLim ?h1" using ok1 lt by (rule store_ok_cloneNodes)
  then have "store_ok (cloneEdges ?h2 (graphLim h) (g_edges (graphObjs h g)))"
    using lt store_ok_cloneEdges [of ?h2 "graphLim h"] by simp
  then show ?thesis using fst by (simp add: clone_def Let_def split_beta)
qed

text \<open>
  C10, as amended. The invariant \<open>store_ok\<close> (every graph of the store is well-formed and
  its adjacency lists agree with its edges, with a self-loop recorded once in the one list
  of its node) holds in the empty store and is kept by every operation of a graph:
  construction, \<^verbatim>\<open>addNode\<close>, \<^verbatim>\<open>addEdge\<close> whose node arguments are nodes of that graph,
  \<^verbatim>\<open>update\<close>, \<^verbatim>\<open>breadthFirstTraverse\<close> and \<^verbatim>\<open>clone\<close>.
\<close>

theorem adjacency_preserved:
  "store_ok emptyHeap
   \<and> (store_ok h \<longrightarrow> store_ok (snd (Graph_new h d)))
   \<and> (store_ok h \<and> g < graphLim h \<longrightarrow>
          adjacency h g
        \<and> store_ok (snd (addNode h g ident dataIndex))
        \<and> (ownArg h g a1 \<and> ownArg h g a2 \<longrightarrow> store_ok (snd (addEdge h g a1 a2 dataIndex)))
        \<and> (update h g = Inr h1 \<longrightarrow> store_ok h1)
        \<and> (breadthFirstTraverse cb s h g startNode direction = Inr (h2, s2) \<longrightarrow> store_ok h2)
        \<and> store_ok (snd (clone h g)))"
proof (intro conjI impI)
  show "store_ok emptyHeap" by (rule store_ok_empty)
next
  assume "store_ok h"
  then show "store_ok (snd (Graph_new h d))" by (rule store_ok_Graph_new)
next
  assume a: "store_ok h \<and> g < graphLim h"
  then show "adjacency h g" by (simp add: store_ok_def)
  from a show "store_ok (snd (addNode h g ident dataIndex))" by (simp add: store_ok_addNode)
  from a show "store_ok (snd (clone h g))" by (simp add: store_ok_clone)
  {
    assume "ownArg h g a1 \<and> ownArg h g a2"
    with a show "store_ok (snd (addEdge h g a1 a2 dataIndex))" by (simp add: store_ok_addEdge)
  }
  {
    assume "update h g = Inr h1"
    then have "same_struct h h1" by (rule update_same_struct)
    then show "store_ok h1" using a by (simp add: store_ok_same_struct)
  }
  {
    assume "breadthFirstTraverse cb s h g startNode direction = Inr (h2, s2)"
    then have "same_struct h h2" by (rule breadthFirstTraverse_same_struct)
    then show "store_ok h2" using a by (simp add: store_ok_same_struct)
  }
qed


lemma store_ok_addNodes:
  "store_ok h \<Longrightarrow> g < graphLim h \<Longrightarrow> store_ok (snd (addNodes h g args))"
proof (induction args arbitrary: h)
  case Nil
  then show ?case by simp
next
  case (Cons a as)
  have "store_ok (snd (addNode h g (fst a) (snd a)))" using Cons.prems by (rule store_ok_addNode)
  moreover have "g < graphLim (snd (addNode h g (fst a) (snd a)))"
    using Cons.prems by (simp add: graphLim_addNode)
  ultimately have "store_ok (snd (addNodes (snd (addNode h g (fst a) (snd a))) g as))"
    by (rule Cons.IH)
  then show ?case by (simp only: addNodes_snd_Cons)
qed

lemma same_struct_bindTables: "same_struct h (bindTables h g data edgeData)"
  by (simp add: same_struct_def bindTables_def updGraph_def)

lemma store_ok_exD: "store_ok exD"
  unfolding exD_def exD_edges_def exD_edge_def exD_nodes_def
  by (intro store_ok_same_struct [OF same_struct_bindTables] store_ok_addEdge store_ok_addNodes
        store_ok_Graph_new store_ok_empty)
     (simp_all add: graphLim_addEdge graphLim_addNodes graphLim_Graph_new emptyHeap_def del: addNodes.simps)

lemma exU_simps:
  "graphLim exU = 1" "nodeLim exU = 2" "edgeLim exU = 0"
  "graphObjs exU 0 = \<lparr>g_nodes = [0, 1], g_edges = [], g_data = None, g_edgeData = None,
      g_directed = False, g_nodesMap = [''_EC_A'' \<mapsto> 0, ''_EC_B'' \<mapsto> 1],
      g_edgesMap = Map.empty\<rparr>"
  "nodeObjs exU 0 = \<lparr>n_id = ''A'', n_inEdges = [], n_outEdges = [], n_edges = [],
      n_hostGraph = Some 0, n_dataIndex = -1, n_visited = False\<rparr>"
  "nodeObjs exU (Suc 0) = \<lparr>n_id = ''B'', n_inEdges = [], n_outEdges = [], n_edges = [],
      n_hostGraph = Some 0, n_dataIndex = -1, n_visited = False\<rparr>"
  by (simp_all add: exU_def eval_defs2 eval_nat_numeral)

lemma exLoop_simps:
  "graphObjs exLoop 0 = \<lparr>g_nodes = [0, 1], g_edges = [0], g_data = None, g_edgeData = None,
      g_directed = False, g_nodesMap = [''_EC_A'' \<mapsto> 0, ''_EC_B'' \<mapsto> 1],
      g_edgesMap = [''A-A'' \<mapsto> 0]\<rparr>"
  "nodeObjs exLoop 0 = \<lparr>n_id = ''A'', n_inEdges = [], n_outEdges = [], n_edges = [0],
      n_hostGraph = Some 0, n_dataIndex = -1, n_visited = False\<rparr>"
  "nodeObjs exLoop (Suc 0) = \<lparr>n_id = ''B'', n_inEdges = [], n_outEdges = [], n_edges = [],
      n_hostGraph = Some 0, n_dataIndex = -1, n_visited = False\<rparr>"
  "edgeObjs exLoop 0 = \<lparr>e_node1 = 0, e_node2 = 0, e_dataIndex = -1, e_hostGraph = Some 0\<rparr>"
  by (simp_all add: exLoop_def exU_simps eval_defs2 eval_nat_numeral)

lemma exG2_simps:
  "graphLim exG2 = 2" "nodeLim exG2 = 2" "edgeLim exG2 = 0"
  "graphObjs exG2 0 = graphObjs exU 0"
  "graphObjs exG2 (Suc 0) = \<lparr>g_nodes = [], g_edges = [], g_data = None, g_edgeData = None,
      g_directed = True, g_nodesMap = Map.empty, g_edgesMap = Map.empty\<rparr>"
  "nodeObjs exG2 = nodeObjs exU"
  by (simp_all add: exG2_def exU_simps eval_defs2 eval_nat_numeral)

lemma exForeign_simps:
  "graphObjs exForeign 0 = graphObjs exU 0"
  "g_edges (graphObjs exForeign (Suc 0)) = [0]"
  "nodeObjs exForeign 0 = \<lparr>n_id = ''A'', n_inEdges = [], n_outEdges = [0], n_edges = [0],
      n_hostGraph = Some 0, n_dataIndex = -1, n_visited = False\<rparr>"
  "nodeObjs exForeign (Suc 0) = \<lparr>n_id = ''B'', n_inEdges = [0], n_outEdges = [], n_edges = [0],
      n_hostGraph = Some 0, n_dataIndex = -1, n_visited = False\<rparr>"
  "edgeObjs exForeign 0 = \<lparr>e_node1 = 0, e_node2 = 1, e_dataIndex = -1, e_hostGraph = Some 1\<rparr>"
  by (simp_all add: exForeign_def exG2_simps exU_simps eval_defs2 eval_nat_numeral)

text \<open>
  C10, as stated, fails at a self-loop: after \<^verbatim>\<open>addEdge(A, A)\<close> the edge does occur in the
  \<^verbatim>\<open>edges\<close> of its second endpoint although the endpoints are not distinct (the amended
  invariant holds there). And the invariant of a graph is broken when another graph is
  handed its nodes: the edge the second graph creates enters the lists of nodes of the first.
\<close>

theorem adjacency_counterexample:
  "adjacency_as_claimed exU 0
   \<and> fst (addEdge exU 0 (NodeRef 0) (NodeRef 0) None) = Some 0
   \<and> \<not> adjacency_as_claimed exLoop 0
   \<and> adjacency exLoop 0
   \<and> adjacency exG2 0
   \<and> g_nodes (graphObjs exG2 1) = []
   \<and> fst (addEdge exG2 1 (NodeRef 0) (NodeRef 1) None) = Some 0
   \<and> \<not> adjacency exForeign 0"
  by (simp add: adjacency_as_claimed_def adjacency_def exU_simps exLoop_simps exG2_simps exForeign_simps
        eval_defs2 eval_nat_numeral)

theorem adjacency_preserved_witness:
  "store_ok exD \<and> 0 < graphLim exD \<and> adjacency exD 0
   \<and> ownArg exD 0 (NodeRef 1) \<and> ownArg exD 0 (NodeRef 1)
   \<and> fst (addEdge exD 0 (NodeRef 1) (NodeRef 1) None) = Some 2
   \<and> store_ok (snd (addEdge exD 0 (NodeRef 1) (NodeRef 1) None))
   \<and> update exD 0 = Inr (projr (update exD 0))
   \<and> store_ok (projr (update exD 0))
   \<and> breadthFirstTraverse neverStop () exD 0 (AnId ''A'') DirOut
        = Inr (projr (breadthFirstTraverse neverStop () exD 0 (AnId ''A'') DirOut))
   \<and> store_ok (fst (projr (breadthFirstTraverse neverStop () exD 0 (AnId ''A'') DirOut)))
   \<and> store_ok (snd (addNode exD 0 (Some ''D'') None))
   \<and> store_ok (snd (clone exD 0))
   \<and> store_ok (snd (Graph_new exD None))"
  using adjacency_preserved [of exD None 0 "Some ''D''" None "NodeRef 1" "NodeRef 1"
      "projr (update exD 0)" neverStop "()" "AnId ''A''" DirOut
      "fst (projr (breadthFirstTraverse neverStop () exD 0 (AnId ''A'') DirOut))"
      "snd (projr (breadthFirstTraverse neverStop () exD 0 (AnId ''A'') DirOut))"]
    store_ok_exD
  by (simp add: exD_simps exD_edges_simps ownArg_def eval_defs2 bfs_eval heap_defs update_def
        List_filterSelf_def List_count_def List_getRawIndex_def bothEndsLive_def tableOf_def
        eval_nat_numeral)

section \<open>Cloning a graph\<close>

lemma graph_builtI:
  assumes "distinct (g_nodes (graphObjs h g))" and "distinct (g_edges (graphObjs h g))"
    and "\<And>n. n \<in> set (g_nodes (graphObjs h g)) \<Longrightarrow>
          n < nodeLim h \<and> g_nodesMap (graphObjs h g) (generateNodeKey (n_id (nodeObjs h n))) = Some n"
    and "\<And>k n. g_nodesMap (graphObjs h g) k = Some n \<Longrightarrow> n < nodeLim h"
    and "\<And>e. e \<in> set (g_edges (graphObjs h g)) \<Longrightarrow>
          e < edgeLim h \<and> e_node1 (edgeObjs h e) < nodeLim h \<and> e_node2 (edgeObjs h e) < nodeLim h
        \<and> g_edgesMap (graphObjs h g) (edgeKeyOf h e) = Some e"
  shows "graph_built h g"
  unfolding graph_built_def Let_def using assms by blast

lemma graph_builtD:
  assumes "graph_built h g"
  shows "distinct (g_nodes (graphObjs h g))" and "distinct (g_edges (graphObjs h g))"
    and "\<And>n. n \<in> set (g_nodes (graphObjs h g)) \<Longrightarrow> n < nodeLim h"
    and "\<And>k n. g_nodesMap (graphObjs h g) k = Some n \<Longrightarrow> n < nodeLim h"
    and "\<And>n. n \<in> set (g_nodes (graphObjs h g)) \<Longrightarrow>
           g_nodesMap (graphObjs h g) (generateNodeKey (n_id (nodeObjs h n))) = Some n"
    and "\<And>e. e \<in> set (g_edges (graphObjs h g)) \<Longrightarrow> e < edgeLim h"
    and "\<And>e. e \<in> set (g_edges (graphObjs h g)) \<Longrightarrow> e_node1 (edgeObjs h e) < nodeLim h"
    and "\<And>e. e \<in> set (g_edges (graphObjs h g)) \<Longrightarrow> e_node2 (edgeObjs h e) < nodeLim h"
    and "\<And>e. e \<in> set (g_edges (graphObjs h g)) \<Longrightarrow> g_edgesMap (graphObjs h g) (edgeKeyOf h e) = Some e"
  using assms unfolding graph_built_def Let_def by blast+

lemma ids_inj_built:
  assumes ok: "graph_built h g" and "n \<in> set (g_nodes (graphObjs h g))" "m \<in> set (g_nodes (graphObjs h g))"
    and "n_id (nodeObjs h n) = n_id (nodeObjs h m)"
  shows "n = m"
proof -
  have "Some n = g_nodesMap (graphObjs h g) (generateNodeKey (n_id (nodeObjs h n)))"
    using graph_builtD(5) [OF ok assms(2)] by simp
  also have "\<dots> = g_nodesMap (graphObjs h g) (generateNodeKey (n_id (nodeObjs h m)))"
    by (simp only: assms(4))
  also have "\<dots> = Some m"
    using graph_builtD(5) [OF ok assms(3)] by simp
  finally show ?thesis by simp
qed

lemma graph_ok_built: 
  assumes "graph_ok h g"
  shows "graph_built h g"
proof (rule graph_builtI)
  note D = graph_okD [OF assms]
  show "distinct (g_nodes (graphObjs h g))" "distinct (g_edges (graphObjs h g))" by (rule D)+
  show "\<And>n. n \<in> set (g_nodes (graphObjs h g)) \<Longrightarrow>
          n < nodeLim h \<and> g_nodesMap (graphObjs h g) (generateNodeKey (n_id (nodeObjs h n))) = Some n"
    using D(3,5) by blast
  show "\<And>k n. g_nodesMap (graphObjs h g) k = Some n \<Longrightarrow> n < nodeLim h"
    using D(3,10) by blast
  show "\<And>e. e \<in> set (g_edges (graphObjs h g)) \<Longrightarrow>
          e < edgeLim h \<and> e_node1 (edgeObjs h e) < nodeLim h \<and> e_node2 (edgeObjs h e) < nodeLim h
        \<and> g_edgesMap (graphObjs h g) (edgeKeyOf h e) = Some e"
    using D(3,6,7,8,9) by blast
qed

lemma graph_ok_endIdsOwn:
  assumes "graph_ok h g"
  shows "endIdsOwn h g"
  using graph_okD(7,8) [OF assms] by (simp add: endIdsOwn_def srcId1_def srcId2_def)

lemma heap_ok_built: "heap_ok h \<Longrightarrow> store_built h"
  by (simp add: store_built_def heap_ok_def graph_ok_built)

lemma store_built_empty: "store_built emptyHeap"
  by (simp add: store_built_def emptyHeap_def)

lemma store_built_Graph_new:
  assumes "store_built h"
  shows "store_built (snd (Graph_new h d))"
  using assms
  by (auto simp: store_built_def graph_built_def Graph_new_def allocGraph_def edgeKeyOf_def less_Suc_eq)

lemma store_built_addNode:
  assumes ok: "store_built h" and g: "g < graphLim h"
  shows "store_built (snd (addNode h g ident di))"
proof (cases "g_nodesMap (graphObjs h g) (generateNodeKey (normalizeId ident di))")
  case (Some a)
  then show ?thesis using ok by (simp add: addNode_def Let_def)
next
  case None
  from addNode_effect [OF None] obtain h' where
    r: "addNode h g ident di = (Some (nodeLim h), h')"
    and lims: "graphLim h' = graphLim h" "nodeLim h' = Suc (nodeLim h)" "edgeLim h' = edgeLim h"
    and G: "graphObjs h' = (graphObjs h)(g := (graphObjs h g)
           \<lparr>g_nodes := g_nodes (graphObjs h g) @ [nodeLim h],
            g_nodesMap := (g_nodesMap (graphObjs h g))
                            (generateNodeKey (normalizeId ident di) \<mapsto> nodeLim h)\<rparr>)"
    and N: "nodeObjs h' = (nodeObjs h)(nodeLim h :=
           (GraphNode_new (Some (normalizeId ident di)) di)\<lparr>n_hostGraph := Some g\<rparr>)"
    and E: "edgeObjs h' = edgeObjs h" by blast
  have Nold: "\<And>n. n < nodeLim h \<Longrightarrow> nodeObjs h' n = nodeObjs h n" by (simp add: N)
  have Nnew: "n_id (nodeObjs h' (nodeLim h)) = normalizeId ident di" by (simp add: N GraphNode_new_def)
  have "graph_built h' g0" if g0: "g0 < graphLim h" for g0
  proof -
    have old: "graph_built h g0" using ok g0 by (simp add: store_built_def)
    note D = graph_builtD [OF old]
    have keys: "\<And>e. e \<in> set (g_edges (graphObjs h g0)) \<Longrightarrow> edgeKeyOf h' e = edgeKeyOf h e"
      using D(7,8) by (simp add: edgeKeyOf_def E Nold)
    show ?thesis
    proof (cases "g0 = g")
      case False
      then have G0: "graphObjs h' g0 = graphObjs h g0" by (simp add: G)
      show ?thesis
      proof (rule graph_builtI)
        show "distinct (g_nodes (graphObjs h' g0))" "distinct (g_edges (graphObjs h' g0))"
          using D(1,2) by (simp_all add: G0)
      next
        fix n assume "n \<in> set (g_nodes (graphObjs h' g0))"
        then have n: "n \<in> set (g_nodes (graphObjs h g0))" by (simp add: G0)
        then have "n < nodeLim h" by (rule D(3))
        then show "n < nodeLim h' \<and> g_nodesMap (graphObjs h' g0) (generateNodeKey (n_id (nodeObjs h' n))) = Some n"
          using D(5) [OF n] by (simp add: lims G0 Nold)
      next
        fix k n assume "g_nodesMap (graphObjs h' g0) k = Some n"
        then show "n < nodeLim h'" using D(4) [of k n] by (simp add: G0 lims less_Suc_eq)
      next
        fix e assume "e \<in> set (g_edges (graphObjs h' g0))"
        then have e: "e \<in> set (g_edges (graphObjs h g0))" by (simp add: G0)
        show "e < edgeLim h' \<and> e_node1 (edgeObjs h' e) < nodeLim h' \<and> e_node2 (edgeObjs h' e) < nodeLim h'
          \<and> g_edgesMap (graphObjs h' g0) (edgeKeyOf h' e) = Some e"
          using D(6,7,8,9) [OF e] by (simp add: lims G0 E keys [OF e] less_Suc_eq)
      qed
    next
      case True
      have Gn: "g_nodes (graphObjs h' g) = g_nodes (graphObjs h g) @ [nodeLim h]"
        and Gm: "g_nodesMap (graphObjs h' g) = (g_nodesMap (graphObjs h g))
                            (generateNodeKey (normalizeId ident di) \<mapsto> nodeLim h)"
        and Ge: "g_edges (graphObjs h' g) = g_edges (graphObjs h g)"
        and Gk: "g_edgesMap (graphObjs h' g) = g_edgesMap (graphObjs h g)"
        by (simp_all add: G)
      note D = D [unfolded True]
      have notin: "nodeLim h \<notin> set (g_nodes (graphObjs h g))" using D(3) by blast
      have "graph_built h' g"
      proof (rule graph_builtI)
        show "distinct (g_nodes (graphObjs h' g))" using D(1) notin by (simp add: Gn)
        show "distinct (g_edges (graphObjs h' g))" using D(2) by (simp add: Ge)
      next
        fix n assume "n \<in> set (g_nodes (graphObjs h' g))"
        then consider "n \<in> set (g_nodes (graphObjs h g))" | "n = nodeLim h" by (auto simp: Gn)
        then show "n < nodeLim h' \<and> g_nodesMap (graphObjs h' g) (generateNodeKey (n_id (nodeObjs h' n))) = Some n"
        proof cases
          case 1
          then have lt: "n < nodeLim h" by (rule D(3))
          have "generateNodeKey (n_id (nodeObjs h n)) \<noteq> generateNodeKey (normalizeId ident di)"
            using D(5) [OF 1] None by auto
          then show ?thesis using lt D(5) [OF 1] by (simp add: lims Gm Nold)
        next
          case 2
          then show ?thesis by (simp add: lims Gm Nnew)
        qed
      next
        fix k n assume "g_nodesMap (graphObjs h' g) k = Some n"
        then show "n < nodeLim h'" using D(4) [of k n]
          by (auto simp: Gm lims less_Suc_eq split: if_splits)
      next
        fix e assume "e \<in> set (g_edges (graphObjs h' g))"
        then have e: "e \<in> set (g_edges (graphObjs h g))" by (simp add: Ge)
        show "e < edgeLim h' \<and> e_node1 (edgeObjs h' e) < nodeLim h' \<and> e_node2 (edgeObjs h' e) < nodeLim h'
          \<and> g_edgesMap (graphObjs h' g) (edgeKeyOf h' e) = Some e"
          using D(6,7,8,9) [OF e] keys [unfolded True, OF e] by (simp add: lims Gk E less_Suc_eq)
      qed
      then show ?thesis by (simp add: True)
    qed
  qed
  then show ?thesis using r by (simp add: store_built_def lims)
qed

lemma resolveNode_alloc:
  assumes "graph_built h g" and "allocArg h a" and "resolveNode (graphObjs h g) a = Some n"
  shows "n < nodeLim h"
  using assms graph_builtD(3,4) [OF assms(1)]
  by (cases a) (auto simp: allocArg_def resolveNode_def jsIndex_def split: option.splits if_splits)

text \<open>\<open>store_built\<close> is kept by \<^verbatim>\<open>addEdge\<close> also when it is handed nodes of another graph.\<close>

lemma store_built_addEdge:
  assumes ok: "store_built h" and g: "g < graphLim h"
    and al: "allocArg h a1" "allocArg h a2"
  shows "store_built (snd (addEdge h g a1 a2 di))"
proof -
  have old: "graph_built h g" using ok g by (simp add: store_built_def)
  consider (none) "resolveNode (graphObjs h g) a1 = None \<or> resolveNode (graphObjs h g) a2 = None"
    | (dup) n1 n2 where "resolveNode (graphObjs h g) a1 = Some n1" "resolveNode (graphObjs h g) a2 = Some n2"
        "g_edgesMap (graphObjs h g) (edgeKey (n_id (nodeObjs h n1)) (n_id (nodeObjs h n2))) \<noteq> None"
    | (fresh) n1 n2 where "resolveNode (graphObjs h g) a1 = Some n1" "resolveNode (graphObjs h g) a2 = Some n2"
        "g_edgesMap (graphObjs h g) (edgeKey (n_id (nodeObjs h n1)) (n_id (nodeObjs h n2))) = None"
    by (metis not_Some_eq)
  then show ?thesis
  proof cases
    case none
    then show ?thesis using ok by (simp add: addEdge_none)
  next
    case dup
    then show ?thesis using ok by (simp add: addEdge_dup)
  next
    case fresh
    let ?key = "edgeKey (n_id (nodeObjs h n1)) (n_id (nodeObjs h n2))"
    let ?G = "graphObjs h g"
    from addEdge_fresh [OF fresh, of di] obtain h' where
      r: "addEdge h g a1 a2 di = (Some (edgeLim h), h')"
      and lims: "graphLim h' = graphLim h" "nodeLim h' = nodeLim h" "edgeLim h' = Suc (edgeLim h)"
      and G: "graphObjs h' = (graphObjs h)(g := ?G
           \<lparr>g_edges := g_edges ?G @ [edgeLim h],
            g_edgesMap := (g_edgesMap ?G)(?key \<mapsto> edgeLim h)\<rparr>)"
      and N: "\<And>r. nodeObjs h' r = (nodeObjs h r)
           \<lparr>n_inEdges := n_inEdges (nodeObjs h r) @ pushed (g_directed ?G \<and> r = n2) (edgeLim h),
            n_outEdges := n_outEdges (nodeObjs h r) @ pushed (g_directed ?G \<and> r = n1) (edgeLim h),
            n_edges := n_edges (nodeObjs h r) @ pushed (r = n1 \<or> r = n2) (edgeLim h)\<rparr>"
      and E: "edgeObjs h' = (edgeObjs h)(edgeLim h := (GraphEdge_new n1 n2 di)\<lparr>e_hostGraph := Some g\<rparr>)"
      by blast
    have n1: "n1 < nodeLim h" and n2: "n2 < nodeLim h"
      using resolveNode_alloc [OF old] al fresh by blast+
    have ids: "\<And>r. n_id (nodeObjs h' r) = n_id (nodeObjs h r)" by (simp add: N)
    have keys: "\<And>e. e < edgeLim h \<Longrightarrow> edgeKeyOf h' e = edgeKeyOf h e"
      by (simp add: edgeKeyOf_def ids E)
    have newkey: "edgeKeyOf h' (edgeLim h) = ?key"
      by (simp add: edgeKeyOf_def ids E GraphEdge_new_def)
    have Eold: "\<And>e. e < edgeLim h \<Longrightarrow> edgeObjs h' e = edgeObjs h e" by (simp add: E)
    have Enew: "e_node1 (edgeObjs h' (edgeLim h)) = n1" "e_node2 (edgeObjs h' (edgeLim h)) = n2"
      by (simp_all add: E GraphEdge_new_def)
    have "graph_built h' g0" if g0: "g0 < graphLim h" for g0
    proof (cases "g0 = g")
      case True
      note D = graph_builtD [OF old]
      have Gn: "g_nodes (graphObjs h' g) = g_nodes ?G"
        and Gm: "g_nodesMap (graphObjs h' g) = g_nodesMap ?G"
        and Ge: "g_edges (graphObjs h' g) = g_edges ?G @ [edgeLim h]"
        and Gk: "g_edgesMap (graphObjs h' g) = (g_edgesMap ?G)(?key \<mapsto> edgeLim h)"
        by (simp_all add: G)
      have notin: "edgeLim h \<notin> set (g_edges ?G)" using D(6) by blast
      have "graph_built h' g"
      proof (rule graph_builtI)
        show "distinct (g_nodes (graphObjs h' g))" using D(1) by (simp add: Gn)
        show "distinct (g_edges (graphObjs h' g))" using D(2) notin by (simp add: Ge)
      next
        fix n assume "n \<in> set (g_nodes (graphObjs h' g))"
        then have "n \<in> set (g_nodes ?G)" by (simp add: Gn)
        then show "n < nodeLim h' \<and> g_nodesMap (graphObjs h' g) (generateNodeKey (n_id (nodeObjs h' n))) = Some n"
          using D(3,5) by (simp add: lims ids Gm)
      next
        fix k n assume "g_nodesMap (graphObjs h' g) k = Some n"
        then show "n < nodeLim h'" using D(4) [of k n] by (simp add: Gm lims)
      next
        fix e assume "e \<in> set (g_edges (graphObjs h' g))"
        then consider "e \<in> set (g_edges ?G)" | "e = edgeLim h" by (auto simp: Ge)
        then show "e < edgeLim h' \<and> e_node1 (edgeObjs h' e) < nodeLim h' \<and> e_node2 (edgeObjs h' e) < nodeLim h'
          \<and> g_edgesMap (graphObjs h' g) (edgeKeyOf h' e) = Some e"
        proof cases
          case 1
          then have lt: "e < edgeLim h" by (rule D(6))
          have "edgeKeyOf h e \<noteq> ?key" using D(9) [OF 1] fresh(3) by auto
          then show ?thesis using lt D(7,8,9) [OF 1] by (simp add: lims Gk keys Eold)
        next
          case 2
          then show ?thesis using n1 n2 by (simp add: lims Gk newkey Enew)
        qed
      qed
      then show ?thesis by (simp add: True)
    next
      case False
      have old0: "graph_built h g0" using ok g0 by (simp add: store_built_def)
      note D = graph_builtD [OF old0]
      have G0: "graphObjs h' g0 = graphObjs h g0" using False by (simp add: G)
      show ?thesis
      proof (rule graph_builtI)
        show "distinct (g_nodes (graphObjs h' g0))" "distinct (g_edges (graphObjs h' g0))"
          using D(1,2) by (simp_all add: G0)
      next
        fix n assume "n \<in> set (g_nodes (graphObjs h' g0))"
        then show "n < nodeLim h' \<and> g_nodesMap (graphObjs h' g0) (generateNodeKey (n_id (nodeObjs h' n))) = Some n"
          using D(3,5) by (simp add: lims ids G0)
      next
        fix k n assume "g_nodesMap (graphObjs h' g0) k = Some n"
        then show "n < nodeLim h'" using D(4) [of k n] by (simp add: G0 lims)
      next
        fix e assume "e \<in> set (g_edges (graphObjs h' g0))"
        then have e: "e \<in> set (g_edges (graphObjs h g0))" by (simp add: G0)
        then have "e < edgeLim h" by (rule D(6))
        then show "e < edgeLim h' \<and> e_node1 (edgeObjs h' e) < nodeLim h' \<and> e_node2 (edgeObjs h' e) < nodeLim h'
          \<and> g_edgesMap (graphObjs h' g0) (edgeKeyOf h' e) = Some e"
          using D(7,8,9) [OF e] by (simp add: lims G0 keys Eold)
      qed
    qed
    then show ?thesis using r by (simp add: store_built_def lims)
  qed
qed

lemma store_built_same_struct:
  assumes "same_struct h h'" and "store_built h"
  shows "store_built h'"
  using assms(2) unfolding store_built_def graph_built_def Let_def edgeKeyOf_same_struct [OF assms(1)]
  using assms(1) by (simp add: same_struct_def)

lemma upt_Cons_shift: "[n ..< n + Suc k] = n # [Suc n ..< Suc n + k]"
  by (subst upt_rec) (simp del: upt_Suc)

text \<open>The first loop of \<^verbatim>\<open>clone\<close>: one new node for each node of the list, in order, when the ids
  of the list are distinct and not yet used in the target graph.\<close>

lemma cloneNodes_spec:
  assumes "\<forall>n\<in>set ns. n < nodeLim h"
    and "distinct (map (\<lambda>n. n_id (nodeObjs h n)) ns)"
    and "\<forall>n\<in>set ns. g_nodesMap (graphObjs h graph) (generateNodeKey (n_id (nodeObjs h n))) = None"
  shows "nodeLim (cloneNodes h graph ns) = nodeLim h + length ns
       \<and> graphLim (cloneNodes h graph ns) = graphLim h
       \<and> edgeLim (cloneNodes h graph ns) = edgeLim h
       \<and> edgeObjs (cloneNodes h graph ns) = edgeObjs h
       \<and> (\<forall>r<nodeLim h. nodeObjs (cloneNodes h graph ns) r = nodeObjs h r)
       \<and> (\<forall>k<length ns. nodeObjs (cloneNodes h graph ns) (nodeLim h + k)
              = \<lparr>n_id = n_id (nodeObjs h (ns ! k)), n_inEdges = [], n_outEdges = [], n_edges = [],
                 n_hostGraph = Some graph, n_dataIndex = n_dataIndex (nodeObjs h (ns ! k)),
                 n_visited = False\<rparr>)
       \<and> (\<forall>g0. g0 \<noteq> graph \<longrightarrow> graphObjs (cloneNodes h graph ns) g0 = graphObjs h g0)
       \<and> g_nodes (graphObjs (cloneNodes h graph ns) graph)
            = g_nodes (graphObjs h graph) @ [nodeLim h ..< nodeLim h + length ns]
       \<and> g_edges (graphObjs (cloneNodes h graph ns) graph) = g_edges (graphObjs h graph)
       \<and> g_directed (graphObjs (cloneNodes h graph ns) graph) = g_directed (graphObjs h graph)
       \<and> g_edgesMap (graphObjs (cloneNodes h graph ns) graph) = g_edgesMap (graphObjs h graph)
       \<and> (\<forall>k<length ns. g_nodesMap (graphObjs (cloneNodes h graph ns) graph)
              (generateNodeKey (n_id (nodeObjs h (ns ! k)))) = Some (nodeLim h + k))
       \<and> (\<forall>key. key \<notin> (\<lambda>n. generateNodeKey (n_id (nodeObjs h n))) ` set ns \<longrightarrow>
              g_nodesMap (graphObjs (cloneNodes h graph ns) graph) key = g_nodesMap (graphObjs h graph) key)"
  using assms
proof (induction ns arbitrary: h)
  case Nil
  then show ?case by simp
next
  case (Cons n ns)
  let ?id = "n_id (nodeObjs h n)" and ?di = "n_dataIndex (nodeObjs h n)"
  let ?key = "generateNodeKey ?id"
  have norm: "normalizeId (Some ?id) (Some ?di) = ?id" by (simp add: normalizeId_def)
  have none: "g_nodesMap (graphObjs h graph) (generateNodeKey (normalizeId (Some ?id) (Some ?di))) = None"
    using Cons.prems(3) by (simp add: norm)
  from addNode_effect [OF none] obtain h1 where
    r: "addNode h graph (Some ?id) (Some ?di) = (Some (nodeLim h), h1)"
    and lims: "graphLim h1 = graphLim h" "nodeLim h1 = Suc (nodeLim h)" "edgeLim h1 = edgeLim h"
    and G: "graphObjs h1 = (graphObjs h)(graph := (graphObjs h graph)
           \<lparr>g_nodes := g_nodes (graphObjs h graph) @ [nodeLim h],
            g_nodesMap := (g_nodesMap (graphObjs h graph))(?key \<mapsto> nodeLim h)\<rparr>)"
    and N: "nodeObjs h1 = (nodeObjs h)(nodeLim h := (GraphNode_new (Some ?id) (Some ?di))\<lparr>n_hostGraph := Some graph\<rparr>)"
    and E: "edgeObjs h1 = edgeObjs h"
    by (auto simp: norm)
  have step: "cloneNodes h graph (n # ns) = cloneNodes h1 graph ns" using r by simp
  have old: "\<And>m. m < nodeLim h \<Longrightarrow> nodeObjs h1 m = nodeObjs h m" by (simp add: N)
  have olds: "\<And>m. m \<in> set (n # ns) \<Longrightarrow> nodeObjs h1 m = nodeObjs h m"
    using Cons.prems(1) old by auto
  have p1: "\<forall>m\<in>set ns. m < nodeLim h1" using Cons.prems(1) by (auto simp: lims)
  have p2: "distinct (map (\<lambda>m. n_id (nodeObjs h1 m)) ns)"
  proof -
    have meq: "map (\<lambda>m. n_id (nodeObjs h1 m)) ns = map (\<lambda>m. n_id (nodeObjs h m)) ns"
      by (rule map_cong) (simp_all add: olds)
    show ?thesis unfolding meq using Cons.prems(2) by simp
  qed
  have notin: "\<forall>m\<in>set ns. n_id (nodeObjs h m) \<noteq> ?id"
  proof
    fix m assume "m \<in> set ns"
    then have "n_id (nodeObjs h m) \<in> (\<lambda>n. n_id (nodeObjs h n)) ` set ns" by (rule imageI)
    moreover have "?id \<notin> (\<lambda>n. n_id (nodeObjs h n)) ` set ns" using Cons.prems(2) by simp
    ultimately show "n_id (nodeObjs h m) \<noteq> ?id" by auto
  qed
  have p3: "\<forall>m\<in>set ns. g_nodesMap (graphObjs h1 graph) (generateNodeKey (n_id (nodeObjs h1 m))) = None"
    using Cons.prems(3) notin olds by (simp add: G)
  note IH = Cons.IH [OF p1 p2 p3]
  let ?h' = "cloneNodes h1 graph ns"
  have c1: "nodeLim ?h' = nodeLim h + length (n # ns)" using IH lims by simp
  have c2: "graphLim ?h' = graphLim h" "edgeLim ?h' = edgeLim h" "edgeObjs ?h' = edgeObjs h"
    using IH lims E by simp_all
  have c3: "\<forall>r<nodeLim h. nodeObjs ?h' r = nodeObjs h r" using IH lims old by simp
  have head: "nodeObjs ?h' (nodeLim h) = nodeObjs h1 (nodeLim h)" using IH lims by simp
  have c4: "\<forall>k<length (n # ns). nodeObjs ?h' (nodeLim h + k)
              = \<lparr>n_id = n_id (nodeObjs h ((n # ns) ! k)), n_inEdges = [], n_outEdges = [], n_edges = [],
                 n_hostGraph = Some graph, n_dataIndex = n_dataIndex (nodeObjs h ((n # ns) ! k)),
                 n_visited = False\<rparr>"
  proof (intro allI impI)
    fix k assume k: "k < length (n # ns)"
    show "nodeObjs ?h' (nodeLim h + k)
              = \<lparr>n_id = n_id (nodeObjs h ((n # ns) ! k)), n_inEdges = [], n_outEdges = [], n_edges = [],
                 n_hostGraph = Some graph, n_dataIndex = n_dataIndex (nodeObjs h ((n # ns) ! k)),
                 n_visited = False\<rparr>"
    proof (cases k)
      case 0
      then show ?thesis using head by (simp add: N GraphNode_new_def)
    next
      case (Suc j)
      then have j: "j < length ns" using k by simp
      then have eq: "nodeObjs h1 (ns ! j) = nodeObjs h (ns ! j)" using olds by simp
      have "nodeObjs ?h' (nodeLim h1 + j)
              = \<lparr>n_id = n_id (nodeObjs h1 (ns ! j)), n_inEdges = [], n_outEdges = [], n_edges = [],
                 n_hostGraph = Some graph, n_dataIndex = n_dataIndex (nodeObjs h1 (ns ! j)),
                 n_visited = False\<rparr>"
        using IH j by blast
      then show ?thesis by (simp add: eq Suc lims)
    qed
  qed
  have c5: "\<forall>g0. g0 \<noteq> graph \<longrightarrow> graphObjs ?h' g0 = graphObjs h g0" using IH G by simp
  have c6: "g_nodes (graphObjs ?h' graph)
            = g_nodes (graphObjs h graph) @ [nodeLim h ..< nodeLim h + length (n # ns)]"
  proof -
    have "g_nodes (graphObjs ?h' graph)
            = g_nodes (graphObjs h1 graph) @ [nodeLim h1 ..< nodeLim h1 + length ns]"
      using IH by blast
    moreover have "g_nodes (graphObjs h1 graph) = g_nodes (graphObjs h graph) @ [nodeLim h]"
      by (simp add: G)
    moreover have "[nodeLim h ..< nodeLim h + length (n # ns)]
            = nodeLim h # [nodeLim h1 ..< nodeLim h1 + length ns]"
      using upt_Cons_shift [of "nodeLim h" "length ns"] by (simp add: lims del: upt_Suc)
    ultimately show ?thesis by (simp del: upt_Suc)
  qed
  have c7: "g_edges (graphObjs ?h' graph) = g_edges (graphObjs h graph)"
    "g_directed (graphObjs ?h' graph) = g_directed (graphObjs h graph)"
    "g_edgesMap (graphObjs ?h' graph) = g_edgesMap (graphObjs h graph)"
    using IH by (simp_all add: G)
  have c9: "\<forall>key. key \<notin> (\<lambda>m. generateNodeKey (n_id (nodeObjs h m))) ` set (n # ns) \<longrightarrow>
              g_nodesMap (graphObjs ?h' graph) key = g_nodesMap (graphObjs h graph) key"
  proof (intro allI impI)
    fix key assume a: "key \<notin> (\<lambda>m. generateNodeKey (n_id (nodeObjs h m))) ` set (n # ns)"
    then have "key \<notin> (\<lambda>m. generateNodeKey (n_id (nodeObjs h1 m))) ` set ns" using olds by auto
    then have "g_nodesMap (graphObjs ?h' graph) key = g_nodesMap (graphObjs h1 graph) key" using IH by blast
    moreover have "key \<noteq> ?key" using a by auto
    ultimately show "g_nodesMap (graphObjs ?h' graph) key = g_nodesMap (graphObjs h graph) key"
      by (simp add: G)
  qed
  have c8: "\<forall>k<length (n # ns). g_nodesMap (graphObjs ?h' graph)
              (generateNodeKey (n_id (nodeObjs h ((n # ns) ! k)))) = Some (nodeLim h + k)"
  proof (intro allI impI)
    fix k assume k: "k < length (n # ns)"
    show "g_nodesMap (graphObjs ?h' graph)
              (generateNodeKey (n_id (nodeObjs h ((n # ns) ! k)))) = Some (nodeLim h + k)"
    proof (cases k)
      case 0
      have "?key \<notin> (\<lambda>m. generateNodeKey (n_id (nodeObjs h1 m))) ` set ns"
        using notin olds by auto
      then have "g_nodesMap (graphObjs ?h' graph) ?key = g_nodesMap (graphObjs h1 graph) ?key"
        using IH by blast
      then show ?thesis using 0 by (simp add: G)
    next
      case (Suc j)
      then have j: "j < length ns" using k by simp
      then have eq: "nodeObjs h1 (ns ! j) = nodeObjs h (ns ! j)" using olds by simp
      have "g_nodesMap (graphObjs ?h' graph) (generateNodeKey (n_id (nodeObjs h1 (ns ! j))))
              = Some (nodeLim h1 + j)"
        using IH j by blast
      then show ?thesis by (simp add: eq Suc lims)
    qed
  qed
  show ?case unfolding step using c1 c2 c3 c4 c5 c6 c7 c8 c9 by blast
qed


lemma edgeKeyOf_src: "edgeKeyOf h e = edgeKey (srcId1 h e) (srcId2 h e)"
  by (simp add: edgeKeyOf_def srcId1_def srcId2_def)

text \<open>The second loop of \<^verbatim>\<open>clone\<close>: one new edge for each edge of the list, in order, when the
  keys of the list are distinct and not yet used in the target graph, and the target graph
  resolves the id of every endpoint to a node allocated at or after \<open>N0\<close>.\<close>

lemma cloneEdges_spec:
  assumes "\<forall>e\<in>set es. e < edgeLim h"
    and "distinct (map (edgeKeyOf h) es)"
    and "\<forall>e\<in>set es. g_edgesMap (graphObjs h graph) (edgeKeyOf h e) = None"
    and "\<forall>e\<in>set es. \<exists>c1 c2.
            g_nodesMap (graphObjs h graph) (generateNodeKey (srcId1 h e)) = Some c1
          \<and> n_id (nodeObjs h c1) = srcId1 h e \<and> N0 \<le> c1
          \<and> g_nodesMap (graphObjs h graph) (generateNodeKey (srcId2 h e)) = Some c2
          \<and> n_id (nodeObjs h c2) = srcId2 h e \<and> N0 \<le> c2"
    and "\<forall>e\<in>set es. e_node1 (edgeObjs h e) < N0 \<and> e_node2 (edgeObjs h e) < N0"
  shows "edgeLim (cloneEdges h graph es) = edgeLim h + length es
       \<and> nodeLim (cloneEdges h graph es) = nodeLim h
       \<and> graphLim (cloneEdges h graph es) = graphLim h
       \<and> (\<forall>x<edgeLim h. edgeObjs (cloneEdges h graph es) x = edgeObjs h x)
       \<and> (\<forall>k<length es.
              e_dataIndex (edgeObjs (cloneEdges h graph es) (edgeLim h + k)) = e_dataIndex (edgeObjs h (es ! k))
            \<and> g_nodesMap (graphObjs h graph) (generateNodeKey (srcId1 h (es ! k)))
                = Some (e_node1 (edgeObjs (cloneEdges h graph es) (edgeLim h + k)))
            \<and> g_nodesMap (graphObjs h graph) (generateNodeKey (srcId2 h (es ! k)))
                = Some (e_node2 (edgeObjs (cloneEdges h graph es) (edgeLim h + k))))
       \<and> (\<forall>r. n_id (nodeObjs (cloneEdges h graph es) r) = n_id (nodeObjs h r)
              \<and> n_dataIndex (nodeObjs (cloneEdges h graph es) r) = n_dataIndex (nodeObjs h r))
       \<and> (\<forall>r<N0. nodeObjs (cloneEdges h graph es) r = nodeObjs h r)
       \<and> (\<forall>g0. g0 \<noteq> graph \<longrightarrow> graphObjs (cloneEdges h graph es) g0 = graphObjs h g0)
       \<and> g_edges (graphObjs (cloneEdges h graph es) graph)
            = g_edges (graphObjs h graph) @ [edgeLim h ..< edgeLim h + length es]
       \<and> g_nodes (graphObjs (cloneEdges h graph es) graph) = g_nodes (graphObjs h graph)
       \<and> g_directed (graphObjs (cloneEdges h graph es) graph) = g_directed (graphObjs h graph)
       \<and> g_nodesMap (graphObjs (cloneEdges h graph es) graph) = g_nodesMap (graphObjs h graph)
       \<and> (\<forall>key. key \<notin> edgeKeyOf h ` set es \<longrightarrow>
              g_edgesMap (graphObjs (cloneEdges h graph es) graph) key = g_edgesMap (graphObjs h graph) key)"
  using assms
proof (induction es arbitrary: h)
  case Nil
  then show ?case by simp
next
  case (Cons e es)
  let ?G = "graphObjs h graph"
  let ?di = "e_dataIndex (edgeObjs h e)"
  let ?new = "edgeLim h"
  from Cons.prems(4) obtain c1 c2 where
    m1: "g_nodesMap ?G (generateNodeKey (srcId1 h e)) = Some c1" and i1: "n_id (nodeObjs h c1) = srcId1 h e"
    and b1: "N0 \<le> c1"
    and m2: "g_nodesMap ?G (generateNodeKey (srcId2 h e)) = Some c2" and i2: "n_id (nodeObjs h c2) = srcId2 h e"
    and b2: "N0 \<le> c2"
    by auto
  have r1: "resolveNode ?G (NodeId (srcId1 h e)) = Some c1" and r2: "resolveNode ?G (NodeId (srcId2 h e)) = Some c2"
    using m1 m2 by (simp_all add: resolveNode_def)
  have key: "edgeKey (n_id (nodeObjs h c1)) (n_id (nodeObjs h c2)) = edgeKeyOf h e"
    by (simp add: i1 i2 edgeKeyOf_src)
  have none: "g_edgesMap ?G (edgeKey (n_id (nodeObjs h c1)) (n_id (nodeObjs h c2))) = None"
    using Cons.prems(3) by (simp add: key)
  from addEdge_fresh [OF r1 r2 none, of "Some ?di"] obtain h1 where
    r: "addEdge h graph (NodeId (srcId1 h e)) (NodeId (srcId2 h e)) (Some ?di) = (Some ?new, h1)"
    and lims: "graphLim h1 = graphLim h" "nodeLim h1 = nodeLim h" "edgeLim h1 = Suc ?new"
    and G: "graphObjs h1 = (graphObjs h)(graph := ?G
           \<lparr>g_edges := g_edges ?G @ [?new],
            g_edgesMap := (g_edgesMap ?G)(edgeKeyOf h e \<mapsto> ?new)\<rparr>)"
    and N: "\<And>r. nodeObjs h1 r = (nodeObjs h r)
           \<lparr>n_inEdges := n_inEdges (nodeObjs h r) @ pushed (g_directed ?G \<and> r = c2) ?new,
            n_outEdges := n_outEdges (nodeObjs h r) @ pushed (g_directed ?G \<and> r = c1) ?new,
            n_edges := n_edges (nodeObjs h r) @ pushed (r = c1 \<or> r = c2) ?new\<rparr>"
    and E: "edgeObjs h1 = (edgeObjs h)(?new := (GraphEdge_new c1 c2 (Some ?di))\<lparr>e_hostGraph := Some graph\<rparr>)"
    by (auto simp: key)
  have step: "cloneEdges h graph (e # es) = cloneEdges h1 graph es"
    using r by (simp add: srcId1_def srcId2_def)
  let ?h' = "cloneEdges h1 graph es"
  have ids: "\<And>r. n_id (nodeObjs h1 r) = n_id (nodeObjs h r)"
    and dis: "\<And>r. n_dataIndex (nodeObjs h1 r) = n_dataIndex (nodeObjs h r)"
    by (simp_all add: N)
  have Nold: "\<And>r. r < N0 \<Longrightarrow> nodeObjs h1 r = nodeObjs h r"
    using b1 b2 by (simp add: N pushed_def)
  have Eold: "\<And>x. x < ?new \<Longrightarrow> edgeObjs h1 x = edgeObjs h x" by (simp add: E)
  have Es: "\<And>x. x \<in> set (e # es) \<Longrightarrow> edgeObjs h1 x = edgeObjs h x"
    using Cons.prems(1) Eold by auto
  have s1: "\<And>x. x \<in> set (e # es) \<Longrightarrow> srcId1 h1 x = srcId1 h x"
    and s2: "\<And>x. x \<in> set (e # es) \<Longrightarrow> srcId2 h1 x = srcId2 h x"
    by (simp_all add: srcId1_def srcId2_def Es ids)
  have ks: "\<And>x. x \<in> set (e # es) \<Longrightarrow> edgeKeyOf h1 x = edgeKeyOf h x"
    by (simp add: edgeKeyOf_src s1 s2)
  have Gm: "g_nodesMap (graphObjs h1 graph) = g_nodesMap ?G" by (simp add: G)
  have p1: "\<forall>x\<in>set es. x < edgeLim h1" using Cons.prems(1) by (auto simp: lims)
  have meq: "map (edgeKeyOf h1) es = map (edgeKeyOf h) es"
    by (rule map_cong) (simp_all add: ks)
  have p2: "distinct (map (edgeKeyOf h1) es)" unfolding meq using Cons.prems(2) by simp
  have notin: "\<forall>x\<in>set es. edgeKeyOf h x \<noteq> edgeKeyOf h e"
  proof
    fix x assume "x \<in> set es"
    then have "edgeKeyOf h x \<in> edgeKeyOf h ` set es" by (rule imageI)
    moreover have "edgeKeyOf h e \<notin> edgeKeyOf h ` set es" using Cons.prems(2) by simp
    ultimately show "edgeKeyOf h x \<noteq> edgeKeyOf h e" by auto
  qed
  have p3: "\<forall>x\<in>set es. g_edgesMap (graphObjs h1 graph) (edgeKeyOf h1 x) = None"
    using Cons.prems(3) notin ks by (simp add: G)
  have p4: "\<forall>x\<in>set es. \<exists>c1 c2.
            g_nodesMap (graphObjs h1 graph) (generateNodeKey (srcId1 h1 x)) = Some c1
          \<and> n_id (nodeObjs h1 c1) = srcId1 h1 x \<and> N0 \<le> c1
          \<and> g_nodesMap (graphObjs h1 graph) (generateNodeKey (srcId2 h1 x)) = Some c2
          \<and> n_id (nodeObjs h1 c2) = srcId2 h1 x \<and> N0 \<le> c2"
    using Cons.prems(4) by (simp add: Gm ids s1 s2)
  have p5: "\<forall>x\<in>set es. e_node1 (edgeObjs h1 x) < N0 \<and> e_node2 (edgeObjs h1 x) < N0"
    using Cons.prems(5) by (simp add: Es)
  note IH = Cons.IH [OF p1 p2 p3 p4 p5]
  have c1: "edgeLim ?h' = edgeLim h + length (e # es)" "nodeLim ?h' = nodeLim h" "graphLim ?h' = graphLim h"
    using IH lims by simp_all
  have I2: "\<And>x. x < edgeLim h1 \<Longrightarrow> edgeObjs ?h' x = edgeObjs h1 x" using IH by blast
  have c2: "\<forall>x<edgeLim h. edgeObjs ?h' x = edgeObjs h x"
    using I2 Eold by (simp add: lims)
  have head: "edgeObjs ?h' ?new = (GraphEdge_new c1 c2 (Some ?di))\<lparr>e_hostGraph := Some graph\<rparr>"
    using I2 [of ?new] by (simp add: lims E)
  have I3: "\<And>k. k < length es \<Longrightarrow>
              e_dataIndex (edgeObjs ?h' (edgeLim h1 + k)) = e_dataIndex (edgeObjs h1 (es ! k))
            \<and> g_nodesMap (graphObjs h1 graph) (generateNodeKey (srcId1 h1 (es ! k)))
                = Some (e_node1 (edgeObjs ?h' (edgeLim h1 + k)))
            \<and> g_nodesMap (graphObjs h1 graph) (generateNodeKey (srcId2 h1 (es ! k)))
                = Some (e_node2 (edgeObjs ?h' (edgeLim h1 + k)))"
    using IH by blast
  have c3: "\<forall>k<length (e # es).
              e_dataIndex (edgeObjs ?h' (edgeLim h + k)) = e_dataIndex (edgeObjs h ((e # es) ! k))
            \<and> g_nodesMap ?G (generateNodeKey (srcId1 h ((e # es) ! k)))
                = Some (e_node1 (edgeObjs ?h' (edgeLim h + k)))
            \<and> g_nodesMap ?G (generateNodeKey (srcId2 h ((e # es) ! k)))
                = Some (e_node2 (edgeObjs ?h' (edgeLim h + k)))"
  proof (intro allI impI)
    fix k assume k: "k < length (e # es)"
    show "e_dataIndex (edgeObjs ?h' (edgeLim h + k)) = e_dataIndex (edgeObjs h ((e # es) ! k))
            \<and> g_nodesMap ?G (generateNodeKey (srcId1 h ((e # es) ! k)))
                = Some (e_node1 (edgeObjs ?h' (edgeLim h + k)))
            \<and> g_nodesMap ?G (generateNodeKey (srcId2 h ((e # es) ! k)))
                = Some (e_node2 (edgeObjs ?h' (edgeLim h + k)))"
    proof (cases k)
      case 0
      then show ?thesis using m1 m2 by (simp add: head GraphEdge_new_def)
    next
      case (Suc j)
      then have j: "j < length es" using k by simp
      then have mem: "es ! j \<in> set (e # es)" by simp
      from I3 [OF j] show ?thesis
        by (simp add: Suc lims Es [OF mem] s1 [OF mem] s2 [OF mem] Gm)
    qed
  qed
  have I4: "\<And>r. n_id (nodeObjs ?h' r) = n_id (nodeObjs h1 r)
              \<and> n_dataIndex (nodeObjs ?h' r) = n_dataIndex (nodeObjs h1 r)"
    using IH by blast
  have c4: "\<forall>r. n_id (nodeObjs ?h' r) = n_id (nodeObjs h r)
              \<and> n_dataIndex (nodeObjs ?h' r) = n_dataIndex (nodeObjs h r)"
    using I4 by (simp add: ids dis)
  have I5: "\<And>r. r < N0 \<Longrightarrow> nodeObjs ?h' r = nodeObjs h1 r" using IH by blast
  have c5: "\<forall>r<N0. nodeObjs ?h' r = nodeObjs h r" using I5 Nold by simp
  have I6: "\<And>g0. g0 \<noteq> graph \<Longrightarrow> graphObjs ?h' g0 = graphObjs h1 g0" using IH by blast
  have c6: "\<forall>g0. g0 \<noteq> graph \<longrightarrow> graphObjs ?h' g0 = graphObjs h g0" using I6 by (simp add: G)
  have c7: "g_edges (graphObjs ?h' graph) = g_edges ?G @ [edgeLim h ..< edgeLim h + length (e # es)]"
  proof -
    have "g_edges (graphObjs ?h' graph)
            = g_edges (graphObjs h1 graph) @ [edgeLim h1 ..< edgeLim h1 + length es]"
      using IH by blast
    moreover have "g_edges (graphObjs h1 graph) = g_edges ?G @ [?new]" by (simp add: G)
    moreover have "[?new ..< ?new + length (e # es)] = ?new # [edgeLim h1 ..< edgeLim h1 + length es]"
      using upt_Cons_shift [of ?new "length es"] by (simp add: lims del: upt_Suc)
    ultimately show ?thesis by (simp del: upt_Suc)
  qed
  have c8: "g_nodes (graphObjs ?h' graph) = g_nodes ?G"
    "g_directed (graphObjs ?h' graph) = g_directed ?G"
    "g_nodesMap (graphObjs ?h' graph) = g_nodesMap ?G"
    using IH by (simp_all add: G)
  have I9: "\<And>key. key \<notin> edgeKeyOf h1 ` set es \<Longrightarrow>
              g_edgesMap (graphObjs ?h' graph) key = g_edgesMap (graphObjs h1 graph) key"
    using IH by blast
  have c9: "\<forall>key. key \<notin> edgeKeyOf h ` set (e # es) \<longrightarrow>
              g_edgesMap (graphObjs ?h' graph) key = g_edgesMap ?G key"
  proof (intro allI impI)
    fix key assume a: "key \<notin> edgeKeyOf h ` set (e # es)"
    have "edgeKeyOf h1 ` set es = edgeKeyOf h ` set es" using ks by (intro image_cong) simp_all
    then have "key \<notin> edgeKeyOf h1 ` set es" using a by simp
    then have "g_edgesMap (graphObjs ?h' graph) key = g_edgesMap (graphObjs h1 graph) key" by (rule I9)
    moreover have "key \<noteq> edgeKeyOf h e" using a by auto
    ultimately show "g_edgesMap (graphObjs ?h' graph) key = g_edgesMap ?G key" by (simp add: G)
  qed
  show ?case unfolding step using c1 c2 c3 c4 c5 c6 c7 c8 c9 by blast
qed


lemma map_upt_eq:
  assumes "\<And>k. k < length xs \<Longrightarrow> f (n + k) = g (xs ! k)"
  shows "map f [n ..< n + length xs] = map g xs"
proof (rule nth_equalityI)
  show "length (map f [n ..< n + length xs]) = length (map g xs)" by simp
next
  fix i assume "i < length (map f [n ..< n + length xs])"
  then have i: "i < length xs" by simp
  then show "map f [n ..< n + length xs] ! i = map g xs ! i" using assms [OF i] by simp
qed

lemma Graph_new_effect:
  "fst (Graph_new h d) = graphLim h"
  "graphLim (snd (Graph_new h d)) = Suc (graphLim h)"
  "nodeLim (snd (Graph_new h d)) = nodeLim h"
  "edgeLim (snd (Graph_new h d)) = edgeLim h"
  "nodeObjs (snd (Graph_new h d)) = nodeObjs h"
  "edgeObjs (snd (Graph_new h d)) = edgeObjs h"
  "graphObjs (snd (Graph_new h d)) = (graphObjs h)(graphLim h :=
      \<lparr>g_nodes = [], g_edges = [], g_data = None, g_edgeData = None,
       g_directed = (case d of None \<Rightarrow> False | Some b \<Rightarrow> b),
       g_nodesMap = Map.empty, g_edgesMap = Map.empty\<rparr>)"
  by (simp_all add: Graph_new_def allocGraph_def)

lemma clone_spec:
  assumes B: "graph_built h g" and g: "g < graphLim h" and own: "endIdsOwn h g"
  shows "fst (clone h g) = graphLim h"
    and "g_directed (graphObjs (snd (clone h g)) (graphLim h)) = g_directed (graphObjs h g)"
    and "g_nodes (graphObjs (snd (clone h g)) (graphLim h))
           = [nodeLim h ..< nodeLim h + length (g_nodes (graphObjs h g))]"
    and "g_edges (graphObjs (snd (clone h g)) (graphLim h))
           = [edgeLim h ..< edgeLim h + length (g_edges (graphObjs h g))]"
    and "map (nodeView (snd (clone h g))) (g_nodes (graphObjs (snd (clone h g)) (graphLim h)))
           = map (nodeView h) (g_nodes (graphObjs h g))"
    and "map (edgeView (snd (clone h g))) (g_edges (graphObjs (snd (clone h g)) (graphLim h)))
           = map (edgeView h) (g_edges (graphObjs h g))"
    and "\<forall>e\<in>set (g_edges (graphObjs (snd (clone h g)) (graphLim h))).
           e_node1 (edgeObjs (snd (clone h g)) e) \<in> set (g_nodes (graphObjs (snd (clone h g)) (graphLim h)))
         \<and> e_node2 (edgeObjs (snd (clone h g)) e) \<in> set (g_nodes (graphObjs (snd (clone h g)) (graphLim h)))"
    and "graphObjs (snd (clone h g)) g = graphObjs h g"
    and "\<forall>n<nodeLim h. nodeObjs (snd (clone h g)) n = nodeObjs h n"
    and "\<forall>e<edgeLim h. edgeObjs (snd (clone h g)) e = edgeObjs h e"
proof -
  let ?G = "graphObjs h g"
  let ?ns = "g_nodes ?G" and ?es = "g_edges ?G"
  let ?g' = "graphLim h"
  let ?d = "Some (g_directed ?G)"
  let ?h1 = "snd (Graph_new h ?d)"
  let ?h2 = "cloneNodes ?h1 ?g' ?ns"
  let ?h3 = "cloneEdges ?h2 ?g' ?es"
  let ?N0 = "nodeLim h" and ?E0 = "edgeLim h"
  note D = graph_builtD [OF B]
  note GN = Graph_new_effect [of h ?d]
  have cl: "clone h g = (?g', ?h3)" by (simp add: clone_def Let_def split_beta GN(1))
  have neq: "g \<noteq> ?g'" using g by simp
  \<comment> \<open>the nodes\<close>
  have n1: "\<forall>n\<in>set ?ns. n < nodeLim ?h1" using D(3) by (simp add: GN)
  have inj: "inj_on (\<lambda>n. n_id (nodeObjs h n)) (set ?ns)"
    by (rule inj_onI) (rule ids_inj_built [OF B])
  have n2: "distinct (map (\<lambda>n. n_id (nodeObjs ?h1 n)) ?ns)"
    using D(1) inj by (simp add: GN distinct_map)
  have n3: "\<forall>n\<in>set ?ns. g_nodesMap (graphObjs ?h1 ?g') (generateNodeKey (n_id (nodeObjs ?h1 n))) = None"
    by (simp add: GN)
  note CN = cloneNodes_spec [OF n1 n2 n3]
  have L2: "nodeLim ?h2 = ?N0 + length ?ns" "graphLim ?h2 = Suc ?g'" "edgeLim ?h2 = ?E0"
    "edgeObjs ?h2 = edgeObjs h"
    using CN by (simp_all add: GN)
  have N2old: "\<And>r. r < ?N0 \<Longrightarrow> nodeObjs ?h2 r = nodeObjs h r" using CN by (simp add: GN)
  have N2new: "\<And>k. k < length ?ns \<Longrightarrow> nodeObjs ?h2 (?N0 + k)
              = \<lparr>n_id = n_id (nodeObjs h (?ns ! k)), n_inEdges = [], n_outEdges = [], n_edges = [],
                 n_hostGraph = Some ?g', n_dataIndex = n_dataIndex (nodeObjs h (?ns ! k)),
                 n_visited = False\<rparr>"
    using CN by (simp add: GN)
  have G2other: "\<And>g0. g0 \<noteq> ?g' \<Longrightarrow> graphObjs ?h2 g0 = graphObjs h g0" using CN by (simp add: GN)
  have G2: "g_nodes (graphObjs ?h2 ?g') = [?N0 ..< ?N0 + length ?ns]"
    "g_edges (graphObjs ?h2 ?g') = []" "g_directed (graphObjs ?h2 ?g') = g_directed ?G"
    "g_edgesMap (graphObjs ?h2 ?g') = Map.empty"
    using CN by (simp_all add: GN)
  have M2: "\<And>k. k < length ?ns \<Longrightarrow>
      g_nodesMap (graphObjs ?h2 ?g') (generateNodeKey (n_id (nodeObjs h (?ns ! k)))) = Some (?N0 + k)"
    using CN by (simp add: GN)
  \<comment> \<open>the edges\<close>
  have ends: "\<And>e. e \<in> set ?es \<Longrightarrow> e_node1 (edgeObjs h e) < ?N0 \<and> e_node2 (edgeObjs h e) < ?N0"
    using D(7,8) by blast
  have s1: "\<And>e. e \<in> set ?es \<Longrightarrow> srcId1 ?h2 e = srcId1 h e"
    and s2: "\<And>e. e \<in> set ?es \<Longrightarrow> srcId2 ?h2 e = srcId2 h e"
    using ends by (simp_all add: srcId1_def srcId2_def L2 N2old)
  have ks: "\<And>e. e \<in> set ?es \<Longrightarrow> edgeKeyOf ?h2 e = edgeKeyOf h e"
    by (simp add: edgeKeyOf_src s1 s2)
  have e1: "\<forall>e\<in>set ?es. e < edgeLim ?h2" using D(6) by (simp add: L2)
  have kinj: "inj_on (edgeKeyOf h) (set ?es)"
  proof (rule inj_onI)
    fix x y assume x: "x \<in> set ?es" and y: "y \<in> set ?es" and eq: "edgeKeyOf h x = edgeKeyOf h y"
    have "Some x = g_edgesMap ?G (edgeKeyOf h x)" using D(9) [OF x] by simp
    also have "\<dots> = g_edgesMap ?G (edgeKeyOf h y)" by (simp only: eq)
    also have "\<dots> = Some y" using D(9) [OF y] by simp
    finally show "x = y" by simp
  qed
  have meq: "map (edgeKeyOf ?h2) ?es = map (edgeKeyOf h) ?es"
    by (rule map_cong) (simp_all add: ks)
  have e2: "distinct (map (edgeKeyOf ?h2) ?es)"
    unfolding meq using D(2) kinj by (simp add: distinct_map)
  have e3: "\<forall>e\<in>set ?es. g_edgesMap (graphObjs ?h2 ?g') (edgeKeyOf ?h2 e) = None"
    by (simp add: G2)
  let ?ids = "(\<lambda>n. n_id (nodeObjs h n)) ` set ?ns"
  have res: "\<exists>k<length ?ns. g_nodesMap (graphObjs ?h2 ?g') (generateNodeKey i) = Some (?N0 + k)
        \<and> n_id (nodeObjs ?h2 (?N0 + k)) = i"
    if "i \<in> ?ids" for i
  proof -
    from that obtain n where "n \<in> set ?ns" and i: "i = n_id (nodeObjs h n)" by blast
    then obtain k where k: "k < length ?ns" and nk: "?ns ! k = n" by (auto simp: in_set_conv_nth)
    from M2 [OF k] N2new [OF k] nk k show ?thesis unfolding i by auto
  qed
  have own1: "\<And>e. e \<in> set ?es \<Longrightarrow> srcId1 h e \<in> ?ids"
    and own2: "\<And>e. e \<in> set ?es \<Longrightarrow> srcId2 h e \<in> ?ids"
    using own by (simp_all add: endIdsOwn_def)
  have e4: "\<forall>e\<in>set ?es. \<exists>c1 c2.
            g_nodesMap (graphObjs ?h2 ?g') (generateNodeKey (srcId1 ?h2 e)) = Some c1
          \<and> n_id (nodeObjs ?h2 c1) = srcId1 ?h2 e \<and> ?N0 \<le> c1
          \<and> g_nodesMap (graphObjs ?h2 ?g') (generateNodeKey (srcId2 ?h2 e)) = Some c2
          \<and> n_id (nodeObjs ?h2 c2) = srcId2 ?h2 e \<and> ?N0 \<le> c2"
  proof
    fix e assume e: "e \<in> set ?es"
    from res [OF own1 [OF e]] obtain k1 where
      "g_nodesMap (graphObjs ?h2 ?g') (generateNodeKey (srcId1 h e)) = Some (?N0 + k1)"
      "n_id (nodeObjs ?h2 (?N0 + k1)) = srcId1 h e"
      by blast
    moreover from res [OF own2 [OF e]] obtain k2 where
      "g_nodesMap (graphObjs ?h2 ?g') (generateNodeKey (srcId2 h e)) = Some (?N0 + k2)"
      "n_id (nodeObjs ?h2 (?N0 + k2)) = srcId2 h e"
      by blast
    ultimately show "\<exists>c1 c2.
            g_nodesMap (graphObjs ?h2 ?g') (generateNodeKey (srcId1 ?h2 e)) = Some c1
          \<and> n_id (nodeObjs ?h2 c1) = srcId1 ?h2 e \<and> ?N0 \<le> c1
          \<and> g_nodesMap (graphObjs ?h2 ?g') (generateNodeKey (srcId2 ?h2 e)) = Some c2
          \<and> n_id (nodeObjs ?h2 c2) = srcId2 ?h2 e \<and> ?N0 \<le> c2"
      by (simp add: s1 [OF e] s2 [OF e])
  qed
  have e5: "\<forall>e\<in>set ?es. e_node1 (edgeObjs ?h2 e) < ?N0 \<and> e_node2 (edgeObjs ?h2 e) < ?N0"
    using ends by (simp add: L2)
  note CE = cloneEdges_spec [OF e1 e2 e3 e4 e5]
  have E3old: "\<And>x. x < ?E0 \<Longrightarrow> edgeObjs ?h3 x = edgeObjs h x" using CE by (simp add: L2)
  have E3new: "\<And>k. k < length ?es \<Longrightarrow>
              e_dataIndex (edgeObjs ?h3 (?E0 + k)) = e_dataIndex (edgeObjs h (?es ! k))
            \<and> g_nodesMap (graphObjs ?h2 ?g') (generateNodeKey (srcId1 h (?es ! k)))
                = Some (e_node1 (edgeObjs ?h3 (?E0 + k)))
            \<and> g_nodesMap (graphObjs ?h2 ?g') (generateNodeKey (srcId2 h (?es ! k)))
                = Some (e_node2 (edgeObjs ?h3 (?E0 + k)))"
  proof -
    fix k assume k: "k < length ?es"
    then have mem: "?es ! k \<in> set ?es" by simp
    have "e_dataIndex (edgeObjs ?h3 (edgeLim ?h2 + k)) = e_dataIndex (edgeObjs ?h2 (?es ! k))
            \<and> g_nodesMap (graphObjs ?h2 ?g') (generateNodeKey (srcId1 ?h2 (?es ! k)))
                = Some (e_node1 (edgeObjs ?h3 (edgeLim ?h2 + k)))
            \<and> g_nodesMap (graphObjs ?h2 ?g') (generateNodeKey (srcId2 ?h2 (?es ! k)))
                = Some (e_node2 (edgeObjs ?h3 (edgeLim ?h2 + k)))"
      using CE k by blast
    then show "e_dataIndex (edgeObjs ?h3 (?E0 + k)) = e_dataIndex (edgeObjs h (?es ! k))
            \<and> g_nodesMap (graphObjs ?h2 ?g') (generateNodeKey (srcId1 h (?es ! k)))
                = Some (e_node1 (edgeObjs ?h3 (?E0 + k)))
            \<and> g_nodesMap (graphObjs ?h2 ?g') (generateNodeKey (srcId2 h (?es ! k)))
                = Some (e_node2 (edgeObjs ?h3 (?E0 + k)))"
      by (simp add: L2 s1 [OF mem] s2 [OF mem])
  qed
  have N3id: "\<And>r. n_id (nodeObjs ?h3 r) = n_id (nodeObjs ?h2 r)"
    and N3di: "\<And>r. n_dataIndex (nodeObjs ?h3 r) = n_dataIndex (nodeObjs ?h2 r)"
    using CE by blast+
  have N3old: "\<And>r. r < ?N0 \<Longrightarrow> nodeObjs ?h3 r = nodeObjs h r" using CE N2old by simp
  have G3other: "\<And>g0. g0 \<noteq> ?g' \<Longrightarrow> graphObjs ?h3 g0 = graphObjs h g0" using CE G2other by simp
  have G3: "g_nodes (graphObjs ?h3 ?g') = [?N0 ..< ?N0 + length ?ns]"
    "g_edges (graphObjs ?h3 ?g') = [?E0 ..< ?E0 + length ?es]"
    "g_directed (graphObjs ?h3 ?g') = g_directed ?G"
    using CE by (simp_all add: G2 L2)
  \<comment> \<open>an endpoint of a new edge is the new node that carries the id of the old endpoint\<close>
  have endp: "\<exists>j<length ?ns. c = ?N0 + j \<and> n_id (nodeObjs ?h2 c) = i"
    if "i \<in> ?ids" and "g_nodesMap (graphObjs ?h2 ?g') (generateNodeKey i) = Some c"
    for i c
    using res [OF that(1)] that(2) by auto
  have newEdge: "e_node1 (edgeObjs ?h3 (?E0 + k)) \<in> set [?N0 ..< ?N0 + length ?ns]
        \<and> e_node2 (edgeObjs ?h3 (?E0 + k)) \<in> set [?N0 ..< ?N0 + length ?ns]
        \<and> edgeView ?h3 (?E0 + k) = edgeView h (?es ! k)"
    if k: "k < length ?es" for k
  proof -
    have mem: "?es ! k \<in> set ?es" using k by simp
    from E3new [OF k] have di: "e_dataIndex (edgeObjs ?h3 (?E0 + k)) = e_dataIndex (edgeObjs h (?es ! k))"
      and m1: "g_nodesMap (graphObjs ?h2 ?g') (generateNodeKey (srcId1 h (?es ! k)))
                = Some (e_node1 (edgeObjs ?h3 (?E0 + k)))"
      and m2: "g_nodesMap (graphObjs ?h2 ?g') (generateNodeKey (srcId2 h (?es ! k)))
                = Some (e_node2 (edgeObjs ?h3 (?E0 + k)))"
      by blast+
    from endp [OF own1 [OF mem] m1] obtain j1 where j1: "j1 < length ?ns"
      "e_node1 (edgeObjs ?h3 (?E0 + k)) = ?N0 + j1"
      "n_id (nodeObjs ?h2 (e_node1 (edgeObjs ?h3 (?E0 + k)))) = srcId1 h (?es ! k)"
      by blast
    from endp [OF own2 [OF mem] m2] obtain j2 where j2: "j2 < length ?ns"
      "e_node2 (edgeObjs ?h3 (?E0 + k)) = ?N0 + j2"
      "n_id (nodeObjs ?h2 (e_node2 (edgeObjs ?h3 (?E0 + k)))) = srcId2 h (?es ! k)"
      by blast
    show ?thesis using j1 j2 di by (simp add: edgeView_def N3id srcId1_def srcId2_def)
  qed
  show "fst (clone h g) = graphLim h" by (simp add: cl)
  show "g_directed (graphObjs (snd (clone h g)) ?g') = g_directed ?G" by (simp add: cl G3)
  show "g_nodes (graphObjs (snd (clone h g)) ?g') = [?N0 ..< ?N0 + length ?ns]" by (simp add: cl G3)
  show "g_edges (graphObjs (snd (clone h g)) ?g') = [?E0 ..< ?E0 + length ?es]" by (simp add: cl G3)
  show "map (nodeView (snd (clone h g))) (g_nodes (graphObjs (snd (clone h g)) ?g')) = map (nodeView h) ?ns"
    unfolding cl snd_conv G3
    by (rule map_upt_eq) (simp add: nodeView_def N3id N3di N2new)
  show "map (edgeView (snd (clone h g))) (g_edges (graphObjs (snd (clone h g)) ?g')) = map (edgeView h) ?es"
    unfolding cl snd_conv G3
    by (rule map_upt_eq) (simp add: newEdge)
  show "\<forall>e\<in>set (g_edges (graphObjs (snd (clone h g)) ?g')).
           e_node1 (edgeObjs (snd (clone h g)) e) \<in> set (g_nodes (graphObjs (snd (clone h g)) ?g'))
         \<and> e_node2 (edgeObjs (snd (clone h g)) e) \<in> set (g_nodes (graphObjs (snd (clone h g)) ?g'))"
    unfolding cl snd_conv G3
  proof
    fix e assume "e \<in> set [?E0 ..< ?E0 + length ?es]"
    then obtain k where k: "k < length ?es" and e: "e = ?E0 + k"
      by (metis add_diff_inverse_nat atLeastLessThan_iff nat_add_left_cancel_less not_le set_upt)
    from newEdge [OF k] show "e_node1 (edgeObjs ?h3 e) \<in> set [?N0 ..< ?N0 + length ?ns]
         \<and> e_node2 (edgeObjs ?h3 e) \<in> set [?N0 ..< ?N0 + length ?ns]"
      unfolding e by blast
  qed
  show "graphObjs (snd (clone h g)) g = graphObjs h g" using neq by (simp add: cl G3other)
  show "\<forall>n<nodeLim h. nodeObjs (snd (clone h g)) n = nodeObjs h n" by (simp add: cl N3old)
  show "\<forall>e<edgeLim h. edgeObjs (snd (clone h g)) e = edgeObjs h e" by (simp add: cl E3old)
qed


lemma store_built_addNodes:
  "store_built h \<Longrightarrow> g < graphLim h \<Longrightarrow> store_built (snd (addNodes h g args))"
proof (induction args arbitrary: h)
  case Nil
  then show ?case by simp
next
  case (Cons a as)
  have "store_built (snd (addNode h g (fst a) (snd a)))" using Cons.prems by (rule store_built_addNode)
  moreover have "g < graphLim (snd (addNode h g (fst a) (snd a)))"
    using Cons.prems by (simp add: graphLim_addNode)
  ultimately have "store_built (snd (addNodes (snd (addNode h g (fst a) (snd a))) g as))"
    by (rule Cons.IH)
  then show ?case by (simp only: addNodes_snd_Cons)
qed

lemma store_built_cloneNodes:
  "store_built h \<Longrightarrow> graph < graphLim h \<Longrightarrow>
     store_built (cloneNodes h graph ns) \<and> graphLim (cloneNodes h graph ns) = graphLim h"
proof (induction ns arbitrary: h)
  case Nil
  then show ?case by simp
next
  case (Cons n ns)
  let ?h1 = "snd (addNode h graph (Some (n_id (nodeObjs h n))) (Some (n_dataIndex (nodeObjs h n))))"
  have "store_built ?h1" using Cons.prems by (rule store_built_addNode)
  moreover have "graph < graphLim ?h1" using Cons.prems(2) by (simp add: graphLim_addNode)
  ultimately have "store_built (cloneNodes ?h1 graph ns) \<and> graphLim (cloneNodes ?h1 graph ns) = graphLim ?h1"
    by (rule Cons.IH)
  then show ?case by (simp add: graphLim_addNode)
qed

lemma store_built_cloneEdges:
  "store_built h \<Longrightarrow> graph < graphLim h \<Longrightarrow>
     store_built (cloneEdges h graph es) \<and> graphLim (cloneEdges h graph es) = graphLim h"
proof (induction es arbitrary: h)
  case Nil
  then show ?case by simp
next
  case (Cons e es)
  let ?h1 = "snd (addEdge h graph
               (NodeId (n_id (nodeObjs h (e_node1 (edgeObjs h e)))))
               (NodeId (n_id (nodeObjs h (e_node2 (edgeObjs h e)))))
               (Some (e_dataIndex (edgeObjs h e))))"
  have "store_built ?h1" using Cons.prems by (intro store_built_addEdge) (simp_all add: allocArg_def)
  moreover have "graph < graphLim ?h1" using Cons.prems(2) by (simp add: graphLim_addEdge)
  ultimately have "store_built (cloneEdges ?h1 graph es) \<and> graphLim (cloneEdges ?h1 graph es) = graphLim ?h1"
    by (rule Cons.IH)
  then show ?case by (simp add: graphLim_addEdge)
qed

lemma store_built_clone:
  assumes "store_built h"
  shows "store_built (snd (clone h g))"
proof -
  let ?d = "Some (g_directed (graphObjs h g))"
  let ?h1 = "snd (Graph_new h ?d)"
  have fst: "fst (Graph_new h ?d) = graphLim h" by (simp add: graphLim_Graph_new)
  have ok1: "store_built ?h1" using assms by (rule store_built_Graph_new)
  have lt: "graphLim h < graphLim ?h1" by (simp add: graphLim_Graph_new)
  let ?h2 = "cloneNodes ?h1 (graphLim h) (g_nodes (graphObjs h g))"
  have ok2: "store_built ?h2 \<and> graphLim ?h2 = graphLim ?h1" using ok1 lt by (rule store_built_cloneNodes)
  then have "store_built (cloneEdges ?h2 (graphLim h) (g_edges (graphObjs h g)))"
    using lt store_built_cloneEdges [of ?h2 "graphLim h"] by simp
  then show ?thesis using fst by (simp add: clone_def Let_def split_beta)
qed

text \<open>The second loop of \<^verbatim>\<open>clone\<close> adds at most one edge for each edge of the list, and none
  for an edge with an endpoint whose id the target graph does not know.\<close>

lemma cloneEdges_length:
  assumes "\<forall>e\<in>set es. e < edgeLim h"
  shows "length (g_edges (graphObjs (cloneEdges h graph es) graph))
           \<le> length (g_edges (graphObjs h graph)) + length es
       \<and> ((\<exists>e\<in>set es. g_nodesMap (graphObjs h graph) (generateNodeKey (srcId1 h e)) = None
                      \<or> g_nodesMap (graphObjs h graph) (generateNodeKey (srcId2 h e)) = None) \<longrightarrow>
            length (g_edges (graphObjs (cloneEdges h graph es) graph))
              < length (g_edges (graphObjs h graph)) + length es)"
  using assms
proof (induction es arbitrary: h)
  case Nil
  show ?case by simp
next
  case (Cons e es)
  let ?a1 = "NodeId (srcId1 h e)" and ?a2 = "NodeId (srcId2 h e)"
  let ?di = "Some (e_dataIndex (edgeObjs h e))"
  let ?h1 = "snd (addEdge h graph ?a1 ?a2 ?di)"
  let ?G = "graphObjs h graph"
  have step: "cloneEdges h graph (e # es) = cloneEdges ?h1 graph es"
    by (simp add: srcId1_def srcId2_def)
  have es: "\<forall>x\<in>set es. x < edgeLim h" using Cons.prems by simp
  have r1: "resolveNode ?G ?a1 = g_nodesMap ?G (generateNodeKey (srcId1 h e))"
    and r2: "resolveNode ?G ?a2 = g_nodesMap ?G (generateNodeKey (srcId2 h e))"
    by (simp_all add: resolveNode_def)
  consider (none) "resolveNode ?G ?a1 = None \<or> resolveNode ?G ?a2 = None"
    | (dup) n1 n2 where "resolveNode ?G ?a1 = Some n1" "resolveNode ?G ?a2 = Some n2"
        "g_edgesMap ?G (edgeKey (n_id (nodeObjs h n1)) (n_id (nodeObjs h n2))) \<noteq> None"
    | (fresh) n1 n2 where "resolveNode ?G ?a1 = Some n1" "resolveNode ?G ?a2 = Some n2"
        "g_edgesMap ?G (edgeKey (n_id (nodeObjs h n1)) (n_id (nodeObjs h n2))) = None"
    by (metis not_Some_eq)
  then show ?case
  proof cases
    case none
    then have "?h1 = h" by (simp add: addEdge_none)
    then show ?thesis using Cons.IH [OF es] unfolding step by simp
  next
    case dup
    then have "?h1 = h" by (simp add: addEdge_dup)
    then show ?thesis using Cons.IH [OF es] unfolding step by simp
  next
    case fresh
    from addEdge_fresh [OF fresh, of ?di] obtain h' where
      r: "addEdge h graph ?a1 ?a2 ?di = (Some (edgeLim h), h')"
      and lims: "edgeLim h' = Suc (edgeLim h)"
      and G: "graphObjs h' = (graphObjs h)(graph := ?G
           \<lparr>g_edges := g_edges ?G @ [edgeLim h],
            g_edgesMap := (g_edgesMap ?G)(edgeKey (n_id (nodeObjs h n1)) (n_id (nodeObjs h n2)) \<mapsto> edgeLim h)\<rparr>)"
      and N: "\<And>r. nodeObjs h' r = (nodeObjs h r)
           \<lparr>n_inEdges := n_inEdges (nodeObjs h r) @ pushed (g_directed ?G \<and> r = n2) (edgeLim h),
            n_outEdges := n_outEdges (nodeObjs h r) @ pushed (g_directed ?G \<and> r = n1) (edgeLim h),
            n_edges := n_edges (nodeObjs h r) @ pushed (r = n1 \<or> r = n2) (edgeLim h)\<rparr>"
      and E: "edgeObjs h' = (edgeObjs h)(edgeLim h := (GraphEdge_new n1 n2 ?di)\<lparr>e_hostGraph := Some graph\<rparr>)"
      by blast
    have h1: "?h1 = h'" by (simp add: r)
    have ids: "\<And>r. n_id (nodeObjs h' r) = n_id (nodeObjs h r)" by (simp add: N)
    have src: "\<And>x. x \<in> set es \<Longrightarrow> srcId1 h' x = srcId1 h x \<and> srcId2 h' x = srcId2 h x"
      using es by (auto simp: srcId1_def srcId2_def ids E)
    have Gm: "g_nodesMap (graphObjs h' graph) = g_nodesMap ?G"
      and Ge: "length (g_edges (graphObjs h' graph)) = Suc (length (g_edges ?G))"
      by (simp_all add: G)
    have es': "\<forall>x\<in>set es. x < edgeLim h'" using es by (simp add: lims less_Suc_eq)
    note IH = Cons.IH [OF es']
    have le: "length (g_edges (graphObjs (cloneEdges h' graph es) graph))
           \<le> length (g_edges ?G) + length (e # es)"
      using IH by (simp add: Ge)
    have lt: "length (g_edges (graphObjs (cloneEdges h' graph es) graph))
           < length (g_edges ?G) + length (e # es)"
      if "\<exists>x\<in>set (e # es). g_nodesMap ?G (generateNodeKey (srcId1 h x)) = None
                      \<or> g_nodesMap ?G (generateNodeKey (srcId2 h x)) = None"
    proof -
      from that fresh(1,2) obtain x where x: "x \<in> set es"
        and u: "g_nodesMap ?G (generateNodeKey (srcId1 h x)) = None
                      \<or> g_nodesMap ?G (generateNodeKey (srcId2 h x)) = None"
        by (auto simp: r1 r2)
      from u src [OF x] have "g_nodesMap (graphObjs h' graph) (generateNodeKey (srcId1 h' x)) = None
                      \<or> g_nodesMap (graphObjs h' graph) (generateNodeKey (srcId2 h' x)) = None"
        by (simp add: Gm)
      with x IH show ?thesis by (auto simp: Ge)
    qed
    show ?thesis unfolding step h1 using le lt by blast
  qed
qed

text \<open>When the id of some edge endpoint is not the id of a node of the graph, the clone has
  fewer edges than the graph.\<close>

lemma clone_drops_edges:
  assumes B: "graph_built h g" and g: "g < graphLim h" and nown: "\<not> endIdsOwn h g"
  shows "length (g_edges (graphObjs (snd (clone h g)) (fst (clone h g))))
           < length (g_edges (graphObjs h g))"
proof -
  let ?G = "graphObjs h g"
  let ?ns = "g_nodes ?G" and ?es = "g_edges ?G"
  let ?g' = "graphLim h"
  let ?d = "Some (g_directed ?G)"
  let ?h1 = "snd (Graph_new h ?d)"
  let ?h2 = "cloneNodes ?h1 ?g' ?ns"
  let ?h3 = "cloneEdges ?h2 ?g' ?es"
  let ?N0 = "nodeLim h"
  let ?ids = "(\<lambda>n. n_id (nodeObjs h n)) ` set ?ns"
  note D = graph_builtD [OF B]
  note GN = Graph_new_effect [of h ?d]
  have cl: "clone h g = (?g', ?h3)" by (simp add: clone_def Let_def split_beta GN(1))
  have n1: "\<forall>n\<in>set ?ns. n < nodeLim ?h1" using D(3) by (simp add: GN)
  have inj: "inj_on (\<lambda>n. n_id (nodeObjs h n)) (set ?ns)"
    by (rule inj_onI) (rule ids_inj_built [OF B])
  have n2: "distinct (map (\<lambda>n. n_id (nodeObjs ?h1 n)) ?ns)"
    using D(1) inj by (simp add: GN distinct_map)
  have n3: "\<forall>n\<in>set ?ns. g_nodesMap (graphObjs ?h1 ?g') (generateNodeKey (n_id (nodeObjs ?h1 n))) = None"
    by (simp add: GN)
  note CN = cloneNodes_spec [OF n1 n2 n3]
  have L2: "edgeLim ?h2 = edgeLim h" "edgeObjs ?h2 = edgeObjs h" using CN by (simp_all add: GN)
  have N2old: "\<And>r. r < ?N0 \<Longrightarrow> nodeObjs ?h2 r = nodeObjs h r" using CN by (simp add: GN)
  have G2: "g_edges (graphObjs ?h2 ?g') = []" using CN by (simp add: GN)
  have K2: "\<And>key. key \<notin> (\<lambda>n. generateNodeKey (n_id (nodeObjs h n))) ` set ?ns \<Longrightarrow>
              g_nodesMap (graphObjs ?h2 ?g') key = None"
    using CN by (simp add: GN)
  have miss: "g_nodesMap (graphObjs ?h2 ?g') (generateNodeKey i) = None" if "i \<notin> ?ids" for i
  proof (rule K2)
    show "generateNodeKey i \<notin> (\<lambda>n. generateNodeKey (n_id (nodeObjs h n))) ` set ?ns"
      using that by (auto simp: generateNodeKey_def)
  qed
  have s: "\<And>e. e \<in> set ?es \<Longrightarrow> srcId1 ?h2 e = srcId1 h e \<and> srcId2 ?h2 e = srcId2 h e"
    using D(7,8) by (simp add: srcId1_def srcId2_def L2 N2old)
  from nown obtain e where e: "e \<in> set ?es" and "srcId1 h e \<notin> ?ids \<or> srcId2 h e \<notin> ?ids"
    by (auto simp: endIdsOwn_def)
  then have "g_nodesMap (graphObjs ?h2 ?g') (generateNodeKey (srcId1 ?h2 e)) = None
           \<or> g_nodesMap (graphObjs ?h2 ?g') (generateNodeKey (srcId2 ?h2 e)) = None"
    using miss s [OF e] by auto
  moreover have "\<forall>e\<in>set ?es. e < edgeLim ?h2" using D(6) by (simp add: L2)
  ultimately have "length (g_edges (graphObjs ?h3 ?g')) < length (g_edges (graphObjs ?h2 ?g')) + length ?es"
    using cloneEdges_length [of ?es ?h2 ?g'] e by blast
  then show ?thesis by (simp add: cl G2)
qed

text \<open>
  C6, as amended. For every graph, as the operations build it (\<open>graph_built\<close>), in which the
  id of each edge endpoint is the id of one of the graph's nodes (so for every graph whose
  edges join its own nodes), \<^verbatim>\<open>clone\<close> returns a new graph (a reference not allocated before, so not the source) with the same directed
  flag, the same sequence of node ids and node \<^verbatim>\<open>dataIndex\<close> values and the same sequence of
  edge endpoint-id pairs and edge \<^verbatim>\<open>dataIndex\<close> values; every node and edge of the new graph
  is an object allocated by the call, hence none of the source's, the endpoints of the new
  edges are nodes of the new graph, and the source graph with its nodes and edges is left
  as it was.
\<close>

theorem clone_copies_graph:
  assumes "graph_built h g" and "g < graphLim h" and "endIdsOwn h g"
  shows "(let g' = fst (clone h g); h' = snd (clone h g) in
            g' = graphLim h \<and> g' \<noteq> g
          \<and> g_directed (graphObjs h' g') = g_directed (graphObjs h g)
          \<and> map (nodeView h') (g_nodes (graphObjs h' g')) = map (nodeView h) (g_nodes (graphObjs h g))
          \<and> map (edgeView h') (g_edges (graphObjs h' g')) = map (edgeView h) (g_edges (graphObjs h g))
          \<and> (\<forall>n\<in>set (g_nodes (graphObjs h' g')). nodeLim h \<le> n \<and> n \<notin> set (g_nodes (graphObjs h g)))
          \<and> (\<forall>e\<in>set (g_edges (graphObjs h' g')). edgeLim h \<le> e \<and> e \<notin> set (g_edges (graphObjs h g))
                \<and> e_node1 (edgeObjs h' e) \<in> set (g_nodes (graphObjs h' g'))
                \<and> e_node2 (edgeObjs h' e) \<in> set (g_nodes (graphObjs h' g')))
          \<and> graphObjs h' g = graphObjs h g
          \<and> (\<forall>n<nodeLim h. nodeObjs h' n = nodeObjs h n)
          \<and> (\<forall>e<edgeLim h. edgeObjs h' e = edgeObjs h e))"
proof -
  note S = clone_spec [OF assms]
  note D = graph_builtD [OF assms(1)]
  have fn: "\<forall>n\<in>set (g_nodes (graphObjs (snd (clone h g)) (graphLim h))).
              nodeLim h \<le> n \<and> n \<notin> set (g_nodes (graphObjs h g))"
    unfolding S(3) using D(3) by fastforce
  have fe: "\<forall>e\<in>set (g_edges (graphObjs (snd (clone h g)) (graphLim h))).
              edgeLim h \<le> e \<and> e \<notin> set (g_edges (graphObjs h g))"
    unfolding S(4) using D(6) by fastforce
  have neq: "graphLim h \<noteq> g" using assms(2) by simp
  show ?thesis
    unfolding Let_def S(1)
    using S(2) S(5) S(6) S(7) S(8) S(9) S(10) fn fe neq by blast
qed

lemma exTwin_nodes_simps:
  "graphLim exTwin_nodes = 2" "nodeLim exTwin_nodes = 4" "edgeLim exTwin_nodes = 0"
  "graphObjs exTwin_nodes (Suc 0) = \<lparr>g_nodes = [2, 3], g_edges = [], g_data = None, g_edgeData = None,
      g_directed = True, g_nodesMap = [''_EC_A'' \<mapsto> 2, ''_EC_B'' \<mapsto> 3], g_edgesMap = Map.empty\<rparr>"
  "nodeObjs exTwin_nodes 0 = nodeObjs exU 0"
  "nodeObjs exTwin_nodes (Suc 0) = nodeObjs exU (Suc 0)"
  "nodeObjs exTwin_nodes (Suc (Suc 0)) = \<lparr>n_id = ''A'', n_inEdges = [], n_outEdges = [], n_edges = [],
      n_hostGraph = Some 1, n_dataIndex = -1, n_visited = False\<rparr>"
  "nodeObjs exTwin_nodes (Suc (Suc (Suc 0))) = \<lparr>n_id = ''B'', n_inEdges = [], n_outEdges = [], n_edges = [],
      n_hostGraph = Some 1, n_dataIndex = -1, n_visited = False\<rparr>"
  by (simp_all add: exTwin_nodes_def exG2_simps exU_simps eval_defs2 eval_nat_numeral)

lemma exTwin_simps:
  "graphLim exTwin = 2" "nodeLim exTwin = 4" "edgeLim exTwin = 1"
  "graphObjs exTwin (Suc 0) = \<lparr>g_nodes = [2, 3], g_edges = [0], g_data = None, g_edgeData = None,
      g_directed = True, g_nodesMap = [''_EC_A'' \<mapsto> 2, ''_EC_B'' \<mapsto> 3],
      g_edgesMap = [''A-B'' \<mapsto> 0]\<rparr>"
  "n_id (nodeObjs exTwin 0) = ''A''" "n_id (nodeObjs exTwin (Suc 0)) = ''B''"
  "n_id (nodeObjs exTwin (Suc (Suc 0))) = ''A''" "n_id (nodeObjs exTwin (Suc (Suc (Suc 0)))) = ''B''"
  "n_dataIndex (nodeObjs exTwin (Suc (Suc 0))) = -1" "n_dataIndex (nodeObjs exTwin (Suc (Suc (Suc 0)))) = -1"
  "edgeObjs exTwin 0 = \<lparr>e_node1 = 0, e_node2 = 1, e_dataIndex = -1, e_hostGraph = Some 1\<rparr>"
  by (simp_all add: exTwin_def exTwin_nodes_simps exU_simps eval_defs2 eval_nat_numeral)

lemma store_built_exTwin: "store_built exTwin"
proof -
  have "store_built exTwin_nodes"
    unfolding exTwin_nodes_def exG2_def
    by (intro store_built_addNodes store_built_Graph_new heap_ok_built heap_ok_exU)
       (simp add: graphLim_Graph_new exU_simps)
  then show ?thesis
    unfolding exTwin_def by (rule store_built_addEdge) (simp_all add: exTwin_nodes_simps allocArg_def)
qed

lemma exForeign_lims:
  "graphLim exForeign = 2" "nodeLim exForeign = 2" "edgeLim exForeign = 1"
  "graphObjs exForeign (Suc 0) = \<lparr>g_nodes = [], g_edges = [0], g_data = None, g_edgeData = None,
      g_directed = True, g_nodesMap = Map.empty, g_edgesMap = [''A-B'' \<mapsto> 0]\<rparr>"
  by (simp_all add: exForeign_def exG2_simps exU_simps eval_defs2 eval_nat_numeral)

lemma store_built_exForeign: "store_built exForeign"
  unfolding exForeign_def exG2_def
  by (intro store_built_addEdge store_built_Graph_new heap_ok_built heap_ok_exU)
     (simp_all add: graphLim_Graph_new exU_simps allocArg_def Graph_new_def allocGraph_def)

theorem clone_copies_graph_witness:
  "graph_built exD 0 \<and> endIdsOwn exD 0 \<and> 0 < graphLim exD
   \<and> fst (clone exD 0) = 1
   \<and> g_directed (graphObjs (snd (clone exD 0)) 1)
   \<and> map (nodeView (snd (clone exD 0))) (g_nodes (graphObjs (snd (clone exD 0)) 1))
       = [(''A'', 0), (''B'', 1), (''C'', 2)]
   \<and> map (edgeView (snd (clone exD 0))) (g_edges (graphObjs (snd (clone exD 0)) 1))
       = [(''A'', ''B'', 0), (''A'', ''C'', 1)]
   \<and> list_all (\<lambda>n. 3 \<le> n) (g_nodes (graphObjs (snd (clone exD 0)) 1))
   \<and> list_all (\<lambda>e. 2 \<le> e) (g_edges (graphObjs (snd (clone exD 0)) 1))
   \<and> g_nodes (graphObjs (snd (clone exD 0)) 0) = [0, 1, 2]
   \<and> g_edges (graphObjs (snd (clone exD 0)) 0) = [0, 1]
   \<and> graph_built exTwin 1 \<and> endIdsOwn exTwin 1 \<and> 1 < graphLim exTwin
   \<and> g_nodes (graphObjs exTwin 1) = [2, 3]
   \<and> e_node1 (edgeObjs exTwin 0) = 0 \<and> e_node2 (edgeObjs exTwin 0) = 1
   \<and> fst (clone exTwin 1) = 2
   \<and> map (nodeView (snd (clone exTwin 1))) (g_nodes (graphObjs (snd (clone exTwin 1)) 2))
       = [(''A'', -1), (''B'', -1)]
   \<and> map (edgeView (snd (clone exTwin 1))) (g_edges (graphObjs (snd (clone exTwin 1)) 2))
       = [(''A'', ''B'', -1)]"
proof -
  have ok: "graph_built exD 0" "endIdsOwn exD 0"
    using heap_ok_graph [OF heap_ok_exD] by (simp_all add: graph_ok_built graph_ok_endIdsOwn exD_simps)
  have lt: "0 < graphLim exD" by (simp add: exD_simps)
  have g': "graphLim exD = 1" and nl: "nodeLim exD = 3" and el: "edgeLim exD = 2"
    by (simp_all add: exD_simps)
  have ns: "map (nodeView exD) (g_nodes (graphObjs exD 0)) = [(''A'', 0), (''B'', 1), (''C'', 2)]"
    by (simp add: exD_simps exD_edges_simps nodeView_def eval_nat_numeral)
  have es: "map (edgeView exD) (g_edges (graphObjs exD 0)) = [(''A'', ''B'', 0), (''A'', ''C'', 1)]"
    by (simp add: exD_simps exD_edges_simps edgeView_def eval_nat_numeral)
  have src: "g_nodes (graphObjs exD 0) = [0, 1, 2]" "g_edges (graphObjs exD 0) = [0, 1]"
    "g_directed (graphObjs exD 0)"
    by (simp_all add: exD_simps)
  note T = clone_copies_graph [OF ok(1) lt ok(2), unfolded Let_def g' nl el ns es]
  from T have a: "fst (clone exD 0) = 1" by (rule conjunct1)
  note U = T [unfolded a]
  from U src(3) have b: "g_directed (graphObjs (snd (clone exD 0)) 1)" by simp
  from U have c: "map (nodeView (snd (clone exD 0))) (g_nodes (graphObjs (snd (clone exD 0)) 1))
       = [(''A'', 0), (''B'', 1), (''C'', 2)]" by blast
  from U have d: "map (edgeView (snd (clone exD 0))) (g_edges (graphObjs (snd (clone exD 0)) 1))
       = [(''A'', ''B'', 0), (''A'', ''C'', 1)]" by blast
  from U have e: "list_all (\<lambda>n. 3 \<le> n) (g_nodes (graphObjs (snd (clone exD 0)) 1))"
    unfolding list_all_iff by blast
  from U have f: "list_all (\<lambda>e. 2 \<le> e) (g_edges (graphObjs (snd (clone exD 0)) 1))"
    unfolding list_all_iff by blast
  from U have "graphObjs (snd (clone exD 0)) 0 = graphObjs exD 0" by blast
  then have g: "g_nodes (graphObjs (snd (clone exD 0)) 0) = [0, 1, 2]"
    "g_edges (graphObjs (snd (clone exD 0)) 0) = [0, 1]"
    by (simp_all add: src)
  have tl: "1 < graphLim exTwin" and tg: "graphLim exTwin = 2" by (simp_all add: exTwin_simps)
  have tb: "graph_built exTwin 1" using store_built_exTwin tl by (simp add: store_built_def)
  have tn: "g_nodes (graphObjs exTwin 1) = [2, 3]" "g_edges (graphObjs exTwin 1) = [0]"
    by (simp_all add: exTwin_simps)
  have te: "e_node1 (edgeObjs exTwin 0) = 0" "e_node2 (edgeObjs exTwin 0) = 1"
    by (simp_all add: exTwin_simps)
  have to: "endIdsOwn exTwin 1"
    by (simp add: endIdsOwn_def srcId1_def srcId2_def exTwin_simps eval_nat_numeral)
  have tns: "map (nodeView exTwin) (g_nodes (graphObjs exTwin 1)) = [(''A'', -1), (''B'', -1)]"
    by (simp add: exTwin_simps nodeView_def eval_nat_numeral)
  have tes: "map (edgeView exTwin) (g_edges (graphObjs exTwin 1)) = [(''A'', ''B'', -1)]"
    by (simp add: exTwin_simps edgeView_def eval_nat_numeral)
  note T2 = clone_copies_graph [OF tb tl to, unfolded Let_def tg tns tes]
  from T2 have a2: "fst (clone exTwin 1) = 2" by (rule conjunct1)
  note U2 = T2 [unfolded a2]
  from U2 have c2: "map (nodeView (snd (clone exTwin 1))) (g_nodes (graphObjs (snd (clone exTwin 1)) 2))
       = [(''A'', -1), (''B'', -1)]" by blast
  from U2 have d2: "map (edgeView (snd (clone exTwin 1))) (g_edges (graphObjs (snd (clone exTwin 1)) 2))
       = [(''A'', ''B'', -1)]" by blast
  from ok lt a b c d e f g tb to tl tn(1) te a2 c2 d2 show ?thesis by simp
qed

text \<open>
  C6, as stated, fails for a graph that was handed the nodes of another graph: the second
  graph of \<open>exForeign\<close> has no nodes and the one edge A-B; its clone has no edge, because
  \<^verbatim>\<open>addEdge('A', 'B')\<close> finds neither id among the nodes of the clone.
\<close>

theorem clone_counterexample:
  "graph_built exForeign 1
   \<and> g_nodes (graphObjs exForeign 1) = []
   \<and> g_edges (graphObjs exForeign 1) = [0]
   \<and> \<not> endIdsOwn exForeign 1
   \<and> map (edgeView exForeign) (g_edges (graphObjs exForeign 1)) = [(''A'', ''B'', -1)]
   \<and> fst (clone exForeign 1) = 2
   \<and> map (edgeView (snd (clone exForeign 1))) (g_edges (graphObjs (snd (clone exForeign 1)) 2)) = []"
proof -
  have b: "graph_built exForeign 1" using store_built_exForeign by (simp add: store_built_def exForeign_lims)
  have r: "clone exForeign (Suc 0) = (Suc (Suc 0), snd (Graph_new exForeign (Some True)))"
    by (simp add: clone_def Let_def split_beta exForeign_lims exForeign_simps Graph_new_effect
          addEdge_def resolveNode_def eval_nat_numeral)
  show ?thesis
    using b
    by (simp add: r exForeign_lims exForeign_simps endIdsOwn_def srcId1_def edgeView_def
          Graph_new_effect eval_nat_numeral)
qed

end
